theory Spec2Isabelle
  imports Complex_Main "HOL-Library.FSet" "HOL-Library.Sublist"
begin

section \<open>Python strings\<close>

text \<open>
  A Python \<open>str\<close> is modelled as a \<open>string\<close> (a list of 8-bit characters, read as
  the code points 0..255). The functions below are the \<open>str\<close> methods that
  \<open>scraper.py\<close> calls, each under its Python name.
\<close>

definition rstrip_slash :: "string \<Rightarrow> string" where
  \<comment> \<open>\<open>s.rstrip("/")\<close>: every trailing slash goes, not only one.\<close>
  "rstrip_slash s = rev (dropWhile (\<lambda>c. c = CHR ''/'') (rev s))"

definition before_hash :: "string \<Rightarrow> string" where
  \<comment> \<open>\<open>s.split("#")[0]\<close>: the text before the first \<open>#\<close>, all of it when there is none.\<close>
  "before_hash s = takeWhile (\<lambda>c. c \<noteq> CHR ''#'') s"

definition startswith :: "string \<Rightarrow> string \<Rightarrow> bool" where
  "startswith s p = (take (length p) s = p)"

definition endswith :: "string \<Rightarrow> string \<Rightarrow> bool" where
  "endswith s x = (length x \<le> length s \<and> drop (length s - length x) s = x)"

definition endswith_any :: "string \<Rightarrow> string list \<Rightarrow> bool" where
  \<comment> \<open>\<open>s.endswith((x1, ..., xn))\<close> with a tuple of suffixes.\<close>
  "endswith_any s xs = list_ex (endswith s) xs"

fun contains :: "string \<Rightarrow> string \<Rightarrow> bool" where
  \<comment> \<open>\<open>sub in s\<close> for strings: \<open>sub\<close> occurs in \<open>s\<close> as a contiguous block.\<close>
  "contains sub [] = (sub = [])"
| "contains sub (c # cs) = (startswith (c # cs) sub \<or> contains sub cs)"

definition lower_char :: "char \<Rightarrow> char" where
  "lower_char c =
     (let n = (of_char c :: nat) in if 65 \<le> n \<and> n \<le> 90 then char_of (n + 32) else c)"

definition lower :: "string \<Rightarrow> string" where
  "lower s = map lower_char s"

definition isspace :: "char \<Rightarrow> bool" where
  \<comment> \<open>\<open>str.isspace\<close> on the code points below 256.\<close>
  "isspace c = ((of_char c :: nat) \<in> {9, 10, 11, 12, 13, 28, 29, 30, 31, 32, 133, 160})"

definition strip :: "string \<Rightarrow> string" where
  \<comment> \<open>\<open>s.strip()\<close>: white space goes from both ends.\<close>
  "strip s = rev (dropWhile isspace (rev (dropWhile isspace s)))"

definition last_segment :: "string \<Rightarrow> string" where
  \<comment> \<open>\<open>s.split("/")[-1]\<close>: the text after the last slash.\<close>
  "last_segment s = rev (takeWhile (\<lambda>c. c \<noteq> CHR ''/'') (rev s))"

definition first_line :: "string \<Rightarrow> string" where
  \<comment> \<open>\<open>s.split("\n")[0]\<close>.\<close>
  "first_line s = takeWhile (\<lambda>c. c \<noteq> CHR 0x0A) s"

fun join :: "string \<Rightarrow> string list \<Rightarrow> string" where
  \<comment> \<open>\<open>sep.join(xs)\<close>.\<close>
  "join sep [] = []"
| "join sep [x] = x"
| "join sep (x # y # ys) = x @ sep @ join sep (y # ys)"

section \<open>Exceptions and the environment\<close>

text \<open>
  Every exception the scraper can meet is a value. The crawl loop catches
  \<open>Exception\<close> and the handler only logs, so the model keeps the class of the
  exception and no more.
\<close>

datatype error =
    ValueError | AttributeError | RequestException | HTTPError | PdfReadError | OtherError

text \<open>
  A parsed HTML document as BeautifulSoup holds it: a forest of tags and strings. A tag
  has its name, the tokens of its \<open>class\<close> attribute, its \<open>href\<close> attribute when it
  has one, and its children. The scraper reads no other attribute. A string is an
  object of the class \<open>NavigableString\<close> itself (\<open>PlainString\<close>) or of one of its
  subclasses: the parser makes the text of a \<open>script\<close>, \<open>style\<close> or \<open>template\<close> element
  a \<open>Script\<close>, \<open>Stylesheet\<close> or \<open>TemplateString\<close>, and a comment a \<open>Comment\<close>.
\<close>

datatype string_class =
    PlainString | CData | Comment | Declaration | Doctype | ProcessingInstruction
  | Script | Stylesheet | TemplateString | RubyTextString | RubyParenthesisString

datatype node =
    Tag string "string list" "string option" "node list"
  | NavigableString string_class string

type_synonym soup = "node list"

record response =
  status_code :: int      \<comment> \<open>\<open>response.status_code\<close>\<close>
  content_type :: string  \<comment> \<open>\<open>response.headers.get("content-type", "")\<close>\<close>
  content :: string       \<comment> \<open>\<open>response.content\<close>\<close>

record pdf =
  pages :: "string list"         \<comment> \<open>\<open>page.extract_text()\<close> of every page, in order\<close>
  meta_title :: "string option"  \<comment> \<open>\<open>metadata.title\<close>, \<open>None\<close> without metadata\<close>

text \<open>
  The libraries and the network, which are not code of the repository, are parameters
  of the model. \<open>http_get\<close> takes the number of effects so far as a clock, so that a
  server may answer the same URL differently at different times; its error is any
  exception of \<open>requests.get\<close> (no connection, a timeout, too many redirects), and its
  response is the last one of the redirect chain, whatever its status.
\<close>

record env =
  bracketed_host_ok :: "string \<Rightarrow> bool"
    \<comment> \<open>\<open>urllib.parse._check_bracketed_host\<close> returns without raising\<close>
  urljoin :: "string \<Rightarrow> string \<Rightarrow> error + string"
  http_get :: "nat \<Rightarrow> string \<Rightarrow> error + response"
    \<comment> \<open>\<open>requests.get(url, timeout=10)\<close>\<close>
  html_parser :: "string \<Rightarrow> error + soup"
    \<comment> \<open>\<open>BeautifulSoup(content, "html.parser")\<close>\<close>
  pdf_reader :: "string \<Rightarrow> error + pdf"
    \<comment> \<open>\<open>pypdf.PdfReader\<close>, its pages and metadata; an exception anywhere is \<open>Inl\<close>\<close>
  md :: "node \<Rightarrow> string"
    \<comment> \<open>\<open>markdownify(str(tag), heading_style="ATX")\<close>\<close>

section \<open>urllib.parse.urlparse\<close>

text \<open>
  \<open>urlparse\<close> follows CPython 3.11's \<open>urllib/parse.py\<close> on \<open>str\<close> input with the
  default arguments. \<open>urlsplit\<close> raises \<open>ValueError\<close> for a netloc whose square
  brackets do not pair up, or whose bracketed host is refused by
  \<open>_check_bracketed_host\<close>. \<open>_checknetloc\<close> never raises on code points below 256.
\<close>

record parse_result =
  scheme :: string
  netloc :: string
  path :: string
  params :: string
  query :: string
  fragment :: string

definition c0_control_or_space :: "char \<Rightarrow> bool" where
  "c0_control_or_space c = ((of_char c :: nat) \<le> 32)"

definition unsafe_url_byte :: "char \<Rightarrow> bool" where
  "unsafe_url_byte c = (c = CHR 0x09 \<or> c = CHR 0x0D \<or> c = CHR 0x0A)"

definition scheme_chars :: string where
  "scheme_chars = ''abcdefghijklmnopqrstuvwxyzABCDEFGHIJKLMNOPQRSTUVWXYZ0123456789+-.''"

definition ascii_alpha :: "char \<Rightarrow> bool" where
  "ascii_alpha c =
     (let n = (of_char c :: nat) in (65 \<le> n \<and> n \<le> 90) \<or> (97 \<le> n \<and> n \<le> 122))"

definition uses_params :: "string list" where
  "uses_params = ['''', ''ftp'', ''hdl'', ''prospero'', ''http'', ''imap'', ''https'',
     ''shttp'', ''rtsp'', ''rtsps'', ''rtspu'', ''sip'', ''sips'', ''mms'', ''sftp'', ''tel'']"

definition clean_url :: "string \<Rightarrow> string" where
  \<comment> \<open>The leading C0 control characters and spaces go, then every tab, CR and LF.\<close>
  "clean_url url = filter (\<lambda>c. \<not> unsafe_url_byte c) (dropWhile c0_control_or_space url)"

definition split_scheme :: "string \<Rightarrow> string \<times> string" where
  \<comment> \<open>\<open>i = url.find(':')\<close>; a scheme is split off when \<open>i > 0\<close>, the first character
      is an ASCII letter and \<open>url[:i]\<close> has scheme characters only.\<close>
  "split_scheme url =
     (let pre = takeWhile (\<lambda>c. c \<noteq> CHR '':'') url in
      if CHR '':'' \<in> set url \<and> pre \<noteq> [] \<and> ascii_alpha (hd url)
         \<and> list_all (\<lambda>c. c \<in> set scheme_chars) pre
      then (lower pre, tl (dropWhile (\<lambda>c. c \<noteq> CHR '':'') url))
      else ('''', url))"

definition netloc_delim :: "char \<Rightarrow> bool" where
  "netloc_delim c = (c = CHR ''/'' \<or> c = CHR ''?'' \<or> c = CHR ''#'')"

definition splitnetloc :: "string \<Rightarrow> string \<times> string" where
  \<comment> \<open>\<open>_splitnetloc(url, 2)\<close>: the netloc runs from index 2 to the first of \<open>/?#\<close>.\<close>
  "splitnetloc url =
     (takeWhile (\<lambda>c. \<not> netloc_delim c) (drop 2 url),
      dropWhile (\<lambda>c. \<not> netloc_delim c) (drop 2 url))"

definition bracketed_host :: "string \<Rightarrow> string" where
  \<comment> \<open>\<open>netloc.partition('[')[2].partition(']')[0]\<close>\<close>
  "bracketed_host nl =
     takeWhile (\<lambda>c. c \<noteq> CHR '']'') (tl (dropWhile (\<lambda>c. c \<noteq> CHR ''['') nl))"

definition netloc_raises :: "env \<Rightarrow> string \<Rightarrow> bool" where
  "netloc_raises E nl =
     (if (CHR ''['' \<in> set nl \<and> CHR '']'' \<notin> set nl) \<or> (CHR '']'' \<in> set nl \<and> CHR ''['' \<notin> set nl)
      then True
      else if CHR ''['' \<in> set nl \<and> CHR '']'' \<in> set nl
      then \<not> bracketed_host_ok E (bracketed_host nl)
      else False)"

definition split_first :: "char \<Rightarrow> string \<Rightarrow> string \<times> string" where
  \<comment> \<open>\<open>if d in url: url, rest = url.split(d, 1)\<close>, else the rest is empty.\<close>
  "split_first d url =
     (if d \<in> set url
      then (takeWhile (\<lambda>c. c \<noteq> d) url, tl (dropWhile (\<lambda>c. c \<noteq> d) url))
      else (url, ''''))"

definition splitparams :: "string \<Rightarrow> string \<times> string" where
  \<comment> \<open>\<open>_splitparams\<close>: the parameters start at the first \<open>;\<close> of the last path
      segment.\<close>
  "splitparams url =
     (if CHR ''/'' \<in> set url
      then (let seg = rev (takeWhile (\<lambda>c. c \<noteq> CHR ''/'') (rev url));
                pre = rev (dropWhile (\<lambda>c. c \<noteq> CHR ''/'') (rev url))
            in if CHR '';'' \<in> set seg
               then (pre @ takeWhile (\<lambda>c. c \<noteq> CHR '';'') seg,
                     tl (dropWhile (\<lambda>c. c \<noteq> CHR '';'') seg))
               else (url, ''''))
      else (takeWhile (\<lambda>c. c \<noteq> CHR '';'') url, tl (dropWhile (\<lambda>c. c \<noteq> CHR '';'') url)))"

definition urlparse :: "env \<Rightarrow> string \<Rightarrow> error + parse_result" where
  "urlparse E url0 =
     (let url1 = clean_url url0;
          (sch, url2) = split_scheme url1;
          has_netloc = (take 2 url2 = ''//'');
          (nl, url3) = (if has_netloc then splitnetloc url2 else ('''', url2))
      in if has_netloc \<and> netloc_raises E nl then Inl ValueError
         else
           (let (url4, frag) = split_first (CHR ''#'') url3;
                (url5, qry) = split_first (CHR ''?'') url4;
                (url6, prm) = (if sch \<in> set uses_params \<and> CHR '';'' \<in> set url5
                               then splitparams url5 else (url5, ''''))
            in Inr \<lparr>scheme = sch, netloc = nl, path = url6, params = prm,
                    query = qry, fragment = frag\<rparr>))"

section \<open>DocumentationScraper\<close>

record document =
  url :: string
  title :: string
  content_md :: string  \<comment> \<open>the key \<open>"content"\<close> of the dictionary\<close>

record scraper =
  base_url :: string
  base_path :: string
  max_pages :: int
  visited_urls :: "string fset"
  queued_urls :: "string fset"
  documents :: "document list"
  domain :: string

definition init :: "env \<Rightarrow> string \<Rightarrow> int \<Rightarrow> error + scraper" where
  \<comment> \<open>\<open>__init__\<close>; \<open>urlparse(base_url)\<close> may raise.\<close>
  "init E url0 n =
     (case urlparse E url0 of
        Inl e \<Rightarrow> Inl e
      | Inr p \<Rightarrow>
          Inr \<lparr>base_url = rstrip_slash url0, base_path = rstrip_slash (path p),
               max_pages = n, visited_urls = {||}, queued_urls = {||}, documents = [],
               domain = netloc p\<rparr>)"

definition excluded_extensions :: "string list" where
  "excluded_extensions = [''.zip'', ''.tar.gz'', ''.jpg'', ''.png'', ''.gif'', ''.svg'', ''.ico'']"

definition is_valid_url :: "env \<Rightarrow> scraper \<Rightarrow> string \<Rightarrow> error + bool" where
  "is_valid_url E s u =
     (case urlparse E u of
        Inl e \<Rightarrow> Inl e
      | Inr parsed \<Rightarrow>
          if netloc parsed \<noteq> domain s then Inr False
          else if \<not> startswith (rstrip_slash (path parsed)) (base_path s) then Inr False
          else if u |\<in>| visited_urls s \<or> u |\<in>| queued_urls s then Inr False
          else if endswith_any u excluded_extensions then Inr False
          else Inr True)"

definition normalize_url :: "env \<Rightarrow> string \<Rightarrow> error + string" where
  "normalize_url E u =
     (let u1 = before_hash u in
      case urlparse E u1 of
        Inl e \<Rightarrow> Inl e
      | Inr parsed \<Rightarrow> if path parsed \<noteq> ''/'' then Inr (rstrip_slash u1) else Inr u1)"

subsection \<open>BeautifulSoup queries\<close>

text \<open>
  \<open>soup.find(...)\<close> returns the first tag, in document order, that matches, or \<open>None\<close>.
  A tag object is truthy whatever it holds, so \<open>a or b\<close> over results of \<open>find\<close> moves on
  exactly when \<open>a\<close> is \<open>None\<close>.
\<close>

fun find_in :: "(node \<Rightarrow> bool) \<Rightarrow> node \<Rightarrow> node option"
  and soup_find :: "(node \<Rightarrow> bool) \<Rightarrow> soup \<Rightarrow> node option" where
  "find_in P (NavigableString k s) = None"
| "find_in P (Tag n cs h ks) = (if P (Tag n cs h ks) then Some (Tag n cs h ks) else soup_find P ks)"
| "soup_find P [] = None"
| "soup_find P (k # ks) = (case find_in P k of Some r \<Rightarrow> Some r | None \<Rightarrow> soup_find P ks)"

fun is_named :: "string \<Rightarrow> node \<Rightarrow> bool" where
  "is_named n (Tag m cs h ks) = (m = n)"
| "is_named n (NavigableString k s) = False"

fun is_content_div :: "node \<Rightarrow> bool" where
  \<comment> \<open>\<open>find("div", class_=["content", "documentation", "docs"])\<close>: a \<open>div\<close> one of whose
      classes is in the list.\<close>
  "is_content_div (Tag m cs h ks) =
     (m = ''div'' \<and> list_ex (\<lambda>c. c \<in> set [''content'', ''documentation'', ''docs'']) cs)"
| "is_content_div (NavigableString k s) = False"

definition removed_names :: "string list" where
  "removed_names = [''script'', ''style'', ''nav'', ''header'', ''footer'']"

fun is_removed :: "node \<Rightarrow> bool" where
  "is_removed (Tag m cs h ks) = (m \<in> set removed_names)"
| "is_removed (NavigableString k s) = False"

text \<open>
  \<open>for element in tag.find_all([...]): element.decompose()\<close> takes every matching
  descendant of \<open>tag\<close> out of the tree; \<open>tag\<close> itself stays.
\<close>

fun decompose_in :: "node \<Rightarrow> node"
  and decompose_all :: "soup \<Rightarrow> soup" where
  "decompose_in (NavigableString k s) = NavigableString k s"
| "decompose_in (Tag n cs h ks) = Tag n cs h (decompose_all ks)"
| "decompose_all [] = []"
| "decompose_all (k # ks) =
     (if is_removed k then decompose_all ks else decompose_in k # decompose_all ks)"

text \<open>
  The tag that \<open>find\<close> returned is an object of the tree, and mutating it mutates the
  document: \<open>update_first P f\<close> rewrites, in place, the first tag in document order that
  satisfies \<open>P\<close>.
\<close>

fun update_in :: "(node \<Rightarrow> bool) \<Rightarrow> (node \<Rightarrow> node) \<Rightarrow> node \<Rightarrow> node"
  and update_first :: "(node \<Rightarrow> bool) \<Rightarrow> (node \<Rightarrow> node) \<Rightarrow> soup \<Rightarrow> soup" where
  "update_in P f (NavigableString k s) = NavigableString k s"
| "update_in P f (Tag n cs h ks) =
     (if P (Tag n cs h ks) then f (Tag n cs h ks) else Tag n cs h (update_first P f ks))"
| "update_first P f [] = []"
| "update_first P f (k # ks) =
     (case find_in P k of Some r \<Rightarrow> update_in P f k # ks | None \<Rightarrow> k # update_first P f ks)"

definition interesting_string_types :: "string_class list" where
  \<comment> \<open>\<open>Tag.DEFAULT_INTERESTING_STRING_TYPES = (NavigableString, CData)\<close>, which is
      \<open>interesting_string_types\<close> of every tag but \<open>script\<close>, \<open>style\<close>, \<open>template\<close>,
      \<open>rt\<close> and \<open>rp\<close>.\<close>
  "interesting_string_types = [PlainString, CData]"

fun strings_in :: "node \<Rightarrow> string list"
  and all_strings :: "soup \<Rightarrow> string list" where
  \<comment> \<open>\<open>tag._all_strings()\<close> with the default \<open>types\<close>: the descendant strings whose class
      is one of \<open>interesting_string_types\<close>, so that comments and the text of scripts and
      styles are passed over.\<close>
  "strings_in (NavigableString k s) = (if k \<in> set interesting_string_types then [s] else [])"
| "strings_in (Tag n cs h ks) = all_strings ks"
| "all_strings [] = []"
| "all_strings (k # ks) = strings_in k @ all_strings ks"

definition get_text_strip :: "node \<Rightarrow> string" where
  \<comment> \<open>\<open>tag.get_text(strip=True)\<close> of a tag with the default string types (here an
      \<open>h1\<close>): its strings, each stripped, the empty ones dropped, joined.\<close>
  "get_text_strip t = concat (filter (\<lambda>s. s \<noteq> []) (map strip (strings_in t)))"

fun hrefs_in :: "node \<Rightarrow> string list"
  and find_all_a_href :: "soup \<Rightarrow> string list" where
  \<comment> \<open>\<open>link["href"]\<close> of every \<open>link\<close> of \<open>soup.find_all("a", href=True)\<close>, in document
      order.\<close>
  "hrefs_in (NavigableString k s) = []"
| "hrefs_in (Tag n cs h ks) =
     (case h of Some x \<Rightarrow> (if n = ''a'' then [x] else []) | None \<Rightarrow> []) @ find_all_a_href ks"
| "find_all_a_href [] = []"
| "find_all_a_href (k # ks) = hrefs_in k @ find_all_a_href ks"

subsection \<open>The extractors\<close>

definition find_main :: "soup \<Rightarrow> ((node \<Rightarrow> bool) \<times> node) option" where
  \<comment> \<open>\<open>find("main") or find("article") or find("div", class_=[...]) or find("body")\<close>,
      with the selector that matched.\<close>
  "find_main sp =
     (case soup_find (is_named ''main'') sp of
        Some m \<Rightarrow> Some (is_named ''main'', m)
      | None \<Rightarrow>
     (case soup_find (is_named ''article'') sp of
        Some m \<Rightarrow> Some (is_named ''article'', m)
      | None \<Rightarrow>
     (case soup_find is_content_div sp of
        Some m \<Rightarrow> Some (is_content_div, m)
      | None \<Rightarrow>
     (case soup_find (is_named ''body'') sp of
        Some m \<Rightarrow> Some (is_named ''body'', m)
      | None \<Rightarrow> None))))"

definition extract_content :: "env \<Rightarrow> soup \<Rightarrow> string \<Rightarrow> soup \<times> (error + document)" where
  \<comment> \<open>Returns the document as the call leaves it, and the record or the exception.
      With no main region \<open>main_content\<close> is \<open>None\<close> and \<open>main_content.find_all\<close> raises
      \<open>AttributeError\<close>.\<close>
  "extract_content E sp u =
     (case find_main sp of
        None \<Rightarrow> (sp, Inl AttributeError)
      | Some (P, m) \<Rightarrow>
          (let sp' = update_first P decompose_in sp;
               main_content = decompose_in m;
               title_text = (case soup_find (is_named ''h1'') sp' of
                               Some t \<Rightarrow> get_text_strip t | None \<Rightarrow> u)
           in (sp', Inr \<lparr>url = u, title = title_text, content_md = md E main_content\<rparr>)))"

datatype event =
    LogInfo nat int string      \<comment> \<open>\<open>"Scraping (i/total): url"\<close>\<close>
  | WarnScraping string error   \<comment> \<open>\<open>"Error scraping url: e"\<close>, a warning\<close>
  | WarnPdf string error        \<comment> \<open>\<open>"Error parsing PDF url: e"\<close>, a warning\<close>
  | HttpGet string              \<comment> \<open>\<open>requests.get(url, timeout=10)\<close>\<close>
  | Sleep rat                   \<comment> \<open>\<open>time.sleep(d)\<close>\<close>

definition extract_pdf_content :: "env \<Rightarrow> string \<Rightarrow> string \<Rightarrow> document \<times> event list" where
  \<comment> \<open>Returns the record and what the call logged.\<close>
  "extract_pdf_content E pdf_bytes u =
     (case pdf_reader E pdf_bytes of
        Inl e \<Rightarrow> (\<lparr>url = u, title = last_segment u, content_md = ''''\<rparr>, [WarnPdf u e])
      | Inr reader \<Rightarrow>
          (let text_content = filter (\<lambda>t. strip t \<noteq> []) (pages reader);
               content = join [CHR 0x0A, CHR 0x0A] text_content;
               from_text =
                 (if content \<noteq> []
                  then (let fl = strip (first_line content)
                        in if fl \<noteq> [] \<and> length fl < 200 then fl else last_segment u)
                  else last_segment u);
               title_text =
                 (case meta_title reader of
                    Some t \<Rightarrow> if t \<noteq> [] then t else from_text
                  | None \<Rightarrow> from_text)
           in (\<lparr>url = u, title = title_text, content_md = content\<rparr>, [])))"

fun extract_links_loop ::
  "env \<Rightarrow> scraper \<Rightarrow> string \<Rightarrow> string list \<Rightarrow> string list \<Rightarrow> scraper \<times> (error + string list)" where
  \<comment> \<open>The \<open>for\<close> loop of \<open>extract_links\<close> over the remaining \<open>href\<close>s, with \<open>links\<close> so
      far. An exception leaves the loop with \<open>queued_urls\<close> as it is by then.\<close>
  "extract_links_loop E s cur [] links = (s, Inr links)"
| "extract_links_loop E s cur (h # hs) links =
     (case urljoin E cur h of
        Inl e \<Rightarrow> (s, Inl e)
      | Inr joined \<Rightarrow>
     (case normalize_url E joined of
        Inl e \<Rightarrow> (s, Inl e)
      | Inr absolute_url \<Rightarrow>
     (case is_valid_url E s absolute_url of
        Inl e \<Rightarrow> (s, Inl e)
      | Inr ok \<Rightarrow>
          if ok
          then extract_links_loop E
                 (s\<lparr>queued_urls := finsert absolute_url (queued_urls s)\<rparr>) cur hs
                 (links @ [absolute_url])
          else extract_links_loop E s cur hs links)))"

definition extract_links :: "env \<Rightarrow> scraper \<Rightarrow> soup \<Rightarrow> string \<Rightarrow> scraper \<times> (error + string list)" where
  "extract_links E s sp cur = extract_links_loop E s cur (find_all_a_href sp) []"

subsection \<open>The crawl loop\<close>

text \<open>
  The state of \<open>scrape\<close> at the head of its \<open>while\<close> loop: the object, the two local
  variables, and the effects so far (log lines, requests, sleeps) in the order they
  happened.
\<close>

record crawl =
  self :: scraper
  urls_to_visit :: "string list"
  total_pages :: int
  trace :: "event list"

definition politeness_delay :: rat where
  "politeness_delay = 51 / 100"

definition seed_crawl :: "env \<Rightarrow> scraper \<Rightarrow> error + crawl" where
  \<comment> \<open>The lines of \<open>scrape\<close> before the loop.\<close>
  "seed_crawl E s =
     (case normalize_url E (base_url s) of
        Inl e \<Rightarrow> Inl e
      | Inr normalized_base \<Rightarrow>
          Inr \<lparr>self = s\<lparr>queued_urls := finsert normalized_base (queued_urls s)\<rparr>,
               urls_to_visit = [normalized_base],
               total_pages = min (max_pages s) 1,
               trace = []\<rparr>)"

definition add_document :: "document \<Rightarrow> crawl \<Rightarrow> crawl" where
  \<comment> \<open>\<open>if doc["content"].strip(): self.documents.append(doc)\<close>\<close>
  "add_document doc c =
     (if strip (content_md doc) \<noteq> []
      then c\<lparr>self := (self c)\<lparr>documents := documents (self c) @ [doc]\<rparr>\<rparr>
      else c)"

definition end_of_try :: "crawl \<Rightarrow> crawl" where
  \<comment> \<open>The last two statements of the \<open>try\<close> block.\<close>
  "end_of_try c =
     c\<lparr>total_pages := min (max_pages (self c)) (int (length (urls_to_visit c))),
       trace := trace c @ [Sleep politeness_delay]\<rparr>"

definition enqueue_links :: "env \<Rightarrow> crawl \<Rightarrow> string \<Rightarrow> soup \<Rightarrow> crawl \<times> error option" where
  \<comment> \<open>\<open>new_links = self.extract_links(soup, url); urls_to_visit.extend(new_links)\<close>\<close>
  "enqueue_links E c u sp =
     (case extract_links E (self c) sp u of
        (s', Inl e) \<Rightarrow> (c\<lparr>self := s'\<rparr>, Some e)
      | (s', Inr new_links) \<Rightarrow>
          (c\<lparr>self := s', urls_to_visit := urls_to_visit c @ new_links\<rparr>, None))"

definition handle_html :: "env \<Rightarrow> crawl \<Rightarrow> string \<Rightarrow> soup \<Rightarrow> crawl \<times> error option" where
  \<comment> \<open>The HTML branch: \<open>extract_content\<close>, then \<open>extract_links\<close> on the same document
      object, which \<open>extract_content\<close> has changed.\<close>
  "handle_html E c u sp =
     (case extract_content E sp u of
        (sp', Inl e) \<Rightarrow> (c, Some e)
      | (sp', Inr doc) \<Rightarrow> enqueue_links E (add_document doc c) u sp')"

definition raise_for_status :: "response \<Rightarrow> error option" where
  \<comment> \<open>\<open>Response.raise_for_status\<close> of \<open>requests\<close>: \<open>HTTPError\<close> for a status from 400 to
      599 (client and server errors), and a plain return for every other status.\<close>
  "raise_for_status resp =
     (if 400 \<le> status_code resp \<and> status_code resp < 500 then Some HTTPError
      else if 500 \<le> status_code resp \<and> status_code resp < 600 then Some HTTPError
      else None)"

definition fetch :: "env \<Rightarrow> nat \<Rightarrow> string \<Rightarrow> error + response" where
  \<comment> \<open>\<open>response = requests.get(url, timeout=10); response.raise_for_status()\<close>\<close>
  "fetch E t u =
     (case http_get E t u of
        Inl e \<Rightarrow> Inl e
      | Inr resp \<Rightarrow> (case raise_for_status resp of Some e \<Rightarrow> Inl e | None \<Rightarrow> Inr resp))"

definition try_body :: "env \<Rightarrow> crawl \<Rightarrow> string \<Rightarrow> crawl \<times> error option" where
  \<comment> \<open>The \<open>try\<close> block for the URL \<open>u\<close>: the state it leaves, and the exception that
      ended it, if one did.\<close>
  "try_body E c u =
     (let c0 = c\<lparr>trace := trace c @ [HttpGet u]\<rparr> in
      case fetch E (length (trace c)) u of
        Inl e \<Rightarrow> (c0, Some e)
      | Inr resp \<Rightarrow>
          (let c1 = c0\<lparr>self := (self c0)\<lparr>visited_urls := finsert u (visited_urls (self c0))\<rparr>\<rparr>;
               ctype = lower (content_type resp);
               is_pdf = (endswith u ''.pdf'' \<or> contains ''application/pdf'' ctype)
           in if is_pdf
              then (case extract_pdf_content E (content resp) u of
                      (doc, logged) \<Rightarrow>
                        (end_of_try (add_document doc (c1\<lparr>trace := trace c1 @ logged\<rparr>)), None))
              else (case html_parser E (content resp) of
                      Inl e \<Rightarrow> (c1, Some e)
                    | Inr sp \<Rightarrow>
                        (case handle_html E c1 u sp of
                           (c2, Some e) \<Rightarrow> (c2, Some e)
                         | (c2, None) \<Rightarrow> (end_of_try c2, None)))))"

definition dequeue :: "crawl \<Rightarrow> string \<Rightarrow> string list \<Rightarrow> crawl" where
  \<comment> \<open>\<open>url = urls_to_visit.pop(0)\<close> and the log line, for \<open>urls_to_visit = u # rest\<close>.\<close>
  "dequeue c u rest =
     c\<lparr>urls_to_visit := rest,
       trace := trace c @ [LogInfo (fcard (visited_urls (self c)) + 1) (total_pages c) u]\<rparr>"

definition scrape_iter :: "env \<Rightarrow> crawl \<Rightarrow> crawl" where
  \<comment> \<open>One pass through the body of the \<open>while\<close> loop. The loop enters the body with
      \<open>urls_to_visit\<close> non-empty only, so \<open>pop(0)\<close> cannot raise there.\<close>
  "scrape_iter E c =
     (case urls_to_visit c of
        [] \<Rightarrow> c
      | u # rest \<Rightarrow>
          (let c1 = dequeue c u rest
           in if u |\<in>| visited_urls (self c) then c1
              else (case try_body E c1 u of
                      (c2, None) \<Rightarrow> c2
                    | (c2, Some e) \<Rightarrow> c2\<lparr>trace := trace c2 @ [WarnScraping u e]\<rparr>)))"

definition loop_cond :: "crawl \<Rightarrow> bool" where
  \<comment> \<open>\<open>urls_to_visit and len(self.visited_urls) < self.max_pages\<close>\<close>
  "loop_cond c =
     (urls_to_visit c \<noteq> [] \<and> int (fcard (visited_urls (self c))) < max_pages (self c))"

definition budget_left :: "crawl \<Rightarrow> nat" where
  "budget_left c = nat (max_pages (self c) - int (fcard (visited_urls (self c))))"

text \<open>
  What an iteration leaves alone. The loop ends because each pass either adds a URL to
  \<open>visited_urls\<close>, which is below \<open>max_pages\<close> in size on entry, or keeps it and shortens
  \<open>urls_to_visit\<close>.
\<close>

lemma extract_links_loop_frame:
  "extract_links_loop E s cur hs links = (s', r) \<Longrightarrow>
     visited_urls s' = visited_urls s \<and> max_pages s' = max_pages s \<and> domain s' = domain s
     \<and> base_path s' = base_path s \<and> documents s' = documents s \<and> base_url s' = base_url s"
proof (induction hs arbitrary: s links)
  case Nil
  then show ?case by simp
next
  case (Cons h hs)
  then show ?case
    by (auto split: sum.splits if_splits)
qed

lemma add_document_frame:
  "visited_urls (self (add_document d c)) = visited_urls (self c)"
  "max_pages (self (add_document d c)) = max_pages (self c)"
  "urls_to_visit (add_document d c) = urls_to_visit c"
  "queued_urls (self (add_document d c)) = queued_urls (self c)"
  "trace (add_document d c) = trace c"
  "total_pages (add_document d c) = total_pages c"
  by (simp_all add: add_document_def)

lemma end_of_try_frame:
  "self (end_of_try c) = self c"
  "urls_to_visit (end_of_try c) = urls_to_visit c"
  by (simp_all add: end_of_try_def)

lemma enqueue_links_frame:
  assumes "enqueue_links E c u sp = (c', r)"
  shows "visited_urls (self c') = visited_urls (self c) \<and> max_pages (self c') = max_pages (self c)"
proof -
  obtain s3 r3 where el: "extract_links E (self c) sp u = (s3, r3)"
    by (cases "extract_links E (self c) sp u")
  have fr: "visited_urls s3 = visited_urls (self c) \<and> max_pages s3 = max_pages (self c)"
    using el extract_links_loop_frame[of E "self c" u "find_all_a_href sp" "[]" s3 r3]
    by (simp add: extract_links_def)
  have "enqueue_links E c u sp =
      (case r3 of Inl e \<Rightarrow> (c\<lparr>self := s3\<rparr>, Some e)
       | Inr new_links \<Rightarrow> (c\<lparr>self := s3, urls_to_visit := urls_to_visit c @ new_links\<rparr>, None))"
    by (simp add: enqueue_links_def el)
  with assms have "self c' = s3"
    by (cases r3) auto
  with fr show ?thesis by simp
qed

lemma handle_html_frame:
  assumes "handle_html E c u sp = (c', r)"
  shows "visited_urls (self c') = visited_urls (self c) \<and> max_pages (self c') = max_pages (self c)"
proof (cases "extract_content E sp u")
  case (Pair sp' res)
  show ?thesis
  proof (cases res)
    case (Inl e)
    with Pair assms show ?thesis by (simp add: handle_html_def)
  next
    case (Inr doc)
    with Pair assms have "enqueue_links E (add_document doc c) u sp' = (c', r)"
      by (simp add: handle_html_def)
    from enqueue_links_frame[OF this] show ?thesis
      by (simp add: add_document_frame)
  qed
qed

lemma try_body_frame:
  assumes "try_body E c u = (c', r)"
  shows "max_pages (self c') = max_pages (self c) \<and>
     ((visited_urls (self c') = visited_urls (self c) \<and> urls_to_visit c' = urls_to_visit c)
      \<or> visited_urls (self c') = finsert u (visited_urls (self c)))"
proof (cases "fetch E (length (trace c)) u")
  case (Inl e)
  with assms have "c' = c\<lparr>trace := trace c @ [HttpGet u]\<rparr>"
    by (simp add: try_body_def Let_def)
  then show ?thesis by simp
next
  case (Inr resp)
  define c1 where "c1 = (c\<lparr>trace := trace c @ [HttpGet u]\<rparr>)
      \<lparr>self := (self c)\<lparr>visited_urls := finsert u (visited_urls (self c))\<rparr>\<rparr>"
  have c1: "visited_urls (self c1) = finsert u (visited_urls (self c))"
    "max_pages (self c1) = max_pages (self c)"
    by (simp_all add: c1_def)
  show ?thesis
  proof (cases "endswith u ''.pdf'' \<or> contains ''application/pdf'' (lower (content_type resp))")
    case True
    obtain doc logged where ep: "extract_pdf_content E (content resp) u = (doc, logged)"
      by (cases "extract_pdf_content E (content resp) u")
    from assms Inr True ep
    have "c' = end_of_try (add_document doc (c1\<lparr>trace := trace c1 @ logged\<rparr>))"
      by (simp add: try_body_def Let_def c1_def)
    then show ?thesis
      by (simp add: end_of_try_frame add_document_frame c1)
  next
    case False
    show ?thesis
    proof (cases "html_parser E (content resp)")
      case (Inl e)
      with assms \<open>fetch E (length (trace c)) u = Inr resp\<close> False have "c' = c1"
        by (simp add: try_body_def Let_def c1_def)
      then show ?thesis by (simp add: c1)
    next
      case sp: (Inr sp)
      obtain c2 r2 where hh: "handle_html E c1 u sp = (c2, r2)"
        by (cases "handle_html E c1 u sp")
      have fr: "visited_urls (self c2) = finsert u (visited_urls (self c))
           \<and> max_pages (self c2) = max_pages (self c)"
        using handle_html_frame[OF hh] by (simp add: c1)
      from assms Inr False sp hh
      have "(c', r) = (case r2 of Some e \<Rightarrow> (c2, Some e) | None \<Rightarrow> (end_of_try c2, None))"
        by (simp add: try_body_def Let_def c1_def)
      then have "self c' = self c2"
        by (cases r2) (simp_all add: end_of_try_frame)
      with fr show ?thesis by simp
    qed
  qed
qed

lemma dequeue_frame:
  "self (dequeue c u rest) = self c"
  "urls_to_visit (dequeue c u rest) = rest"
  "total_pages (dequeue c u rest) = total_pages c"
  "trace (dequeue c u rest) =
     trace c @ [LogInfo (fcard (visited_urls (self c)) + 1) (total_pages c) u]"
  by (simp_all add: dequeue_def)

lemma scrape_iter_skip:
  "urls_to_visit c = u # rest \<Longrightarrow> u |\<in>| visited_urls (self c) \<Longrightarrow>
   scrape_iter E c = dequeue c u rest"
  by (simp add: scrape_iter_def)

lemma scrape_iter_try:
  "urls_to_visit c = u # rest \<Longrightarrow> u |\<notin>| visited_urls (self c) \<Longrightarrow>
   try_body E (dequeue c u rest) u = (c2, r) \<Longrightarrow>
   scrape_iter E c =
     (case r of None \<Rightarrow> c2 | Some e \<Rightarrow> c2\<lparr>trace := trace c2 @ [WarnScraping u e]\<rparr>)"
  by (cases r) (simp_all add: scrape_iter_def)

lemma scrape_iter_decreases:
  assumes "loop_cond c"
  shows "budget_left (scrape_iter E c) < budget_left c \<or>
         (budget_left (scrape_iter E c) = budget_left c \<and>
          length (urls_to_visit (scrape_iter E c)) < length (urls_to_visit c))"
proof (cases "urls_to_visit c")
  case Nil
  with assms show ?thesis by (simp add: loop_cond_def)
next
  case (Cons u rest)
  show ?thesis
  proof (cases "u |\<in>| visited_urls (self c)")
    case True
    from scrape_iter_skip[OF Cons True] Cons show ?thesis
      by (simp add: budget_left_def dequeue_frame)
  next
    case False
    obtain c2 r where tb: "try_body E (dequeue c u rest) u = (c2, r)"
      by (cases "try_body E (dequeue c u rest) u")
    from try_body_frame[OF tb]
    have mp: "max_pages (self c2) = max_pages (self c)"
      and alt: "(visited_urls (self c2) = visited_urls (self c) \<and> urls_to_visit c2 = rest)
                \<or> visited_urls (self c2) = finsert u (visited_urls (self c))"
      by (simp_all add: dequeue_frame)
    have res: "self (scrape_iter E c) = self c2 \<and> urls_to_visit (scrape_iter E c) = urls_to_visit c2"
      using scrape_iter_try[OF Cons False tb] by (cases r) simp_all
    from alt show ?thesis
    proof
      assume "visited_urls (self c2) = visited_urls (self c) \<and> urls_to_visit c2 = rest"
      with res mp Cons show ?thesis by (simp add: budget_left_def)
    next
      assume v: "visited_urls (self c2) = finsert u (visited_urls (self c))"
      have "fcard (finsert u (visited_urls (self c))) = Suc (fcard (visited_urls (self c)))"
        using False by (simp add: fcard_finsert_disjoint)
      with v res mp assms show ?thesis by (simp add: budget_left_def loop_cond_def)
    qed
  qed
qed

function scrape_loop :: "env \<Rightarrow> crawl \<Rightarrow> crawl" where
  \<comment> \<open>The \<open>while\<close> loop, from a state at its head to the state it exits with.\<close>
  "scrape_loop E c = (if loop_cond c then scrape_loop E (scrape_iter E c) else c)"
  by pat_completeness auto
termination
proof (relation "measures [\<lambda>(E, c). budget_left c, \<lambda>(E, c). length (urls_to_visit c)]")
  show "wf (measures [\<lambda>(E, c). budget_left c, \<lambda>(E, c). length (urls_to_visit c)])"
    by simp
next
  fix E :: env and c :: crawl
  assume "loop_cond c"
  from scrape_iter_decreases[OF this, of E]
  show "((E, scrape_iter E c), (E, c))
          \<in> measures [\<lambda>(E, c). budget_left c, \<lambda>(E, c). length (urls_to_visit c)]"
    by auto
qed

declare scrape_loop.simps [simp del]

fun scrape_fuel :: "nat \<Rightarrow> env \<Rightarrow> crawl \<Rightarrow> crawl option" where
  \<comment> \<open>The loop with a bound on its passes: \<open>None\<close> when the bound is used up before
      the loop exits.\<close>
  "scrape_fuel 0 E c = (if loop_cond c then None else Some c)"
| "scrape_fuel (Suc n) E c = (if loop_cond c then scrape_fuel n E (scrape_iter E c) else Some c)"

definition scrape :: "env \<Rightarrow> scraper \<Rightarrow> error + crawl" where
  \<comment> \<open>\<open>scrape\<close>: the final state; the method returns its \<open>documents\<close>.\<close>
  "scrape E s = (case seed_crawl E s of Inl e \<Rightarrow> Inl e | Inr c \<Rightarrow> Inr (scrape_loop E c))"

text \<open>
  The states at the head of the loop in a crawl: a crawl is \<open>__init__\<close> followed by one
  call of \<open>scrape\<close>.
\<close>

inductive crawl_state :: "env \<Rightarrow> string \<Rightarrow> int \<Rightarrow> crawl \<Rightarrow> bool" for E :: env and u0 :: string and n :: int where
  seeded: "init E u0 n = Inr s \<Longrightarrow> seed_crawl E s = Inr c \<Longrightarrow> crawl_state E u0 n c"
| iterated: "crawl_state E u0 n c \<Longrightarrow> loop_cond c \<Longrightarrow> crawl_state E u0 n (scrape_iter E c)"

definition fetched :: "crawl \<Rightarrow> string list" where
  \<comment> \<open>The URLs requested so far, in order.\<close>
  "fetched c = concat (map (\<lambda>e. case e of HttpGet u \<Rightarrow> [u] | _ \<Rightarrow> []) (trace c))"

section \<open>Notions of the specification\<close>

definition urlparse_raises :: "env \<Rightarrow> string \<Rightarrow> bool" where
  \<comment> \<open>\<open>urlparse(x)\<close> raises: \<open>x\<close> has a netloc and the netloc is refused.\<close>
  "urlparse_raises E x =
     (let url2 = snd (split_scheme (clean_url x))
      in take 2 url2 = ''//'' \<and> netloc_raises E (fst (splitnetloc url2)))"

definition strip_one_slash :: "string \<Rightarrow> string" where
  \<comment> \<open>A single trailing slash stripped, as the specification words it.\<close>
  "strip_one_slash s = (if s \<noteq> [] \<and> last s = CHR ''/'' then butlast s else s)"

definition normalize_url_spec :: "env \<Rightarrow> string \<Rightarrow> error + string" where
  \<comment> \<open>The normalizer in the specification's words: the fragment dropped, then one
      trailing slash stripped unless the path is the root.\<close>
  "normalize_url_spec E u =
     (let u1 = before_hash u in
      case urlparse E u1 of
        Inl e \<Rightarrow> Inl e
      | Inr parsed \<Rightarrow> if path parsed \<noteq> ''/'' then Inr (strip_one_slash u1) else Inr u1)"

definition is_valid_url_spec :: "env \<Rightarrow> scraper \<Rightarrow> string \<Rightarrow> error + bool" where
  \<comment> \<open>The scope filter in the specification's words: condition (d) looks at the
      path of the URL.\<close>
  "is_valid_url_spec E s u =
     (case urlparse E u of
        Inl e \<Rightarrow> Inl e
      | Inr parsed \<Rightarrow>
          Inr (netloc parsed = domain s
               \<and> startswith (rstrip_slash (path parsed)) (base_path s)
               \<and> \<not> (u |\<in>| visited_urls s \<or> u |\<in>| queued_urls s)
               \<and> \<not> endswith_any (path parsed) excluded_extensions))"

definition scope_ok :: "env \<Rightarrow> scraper \<Rightarrow> string \<Rightarrow> bool" where
  \<comment> \<open>The conditions of the scope filter that do not depend on the frontier.\<close>
  "scope_ok E s u =
     (case urlparse E u of
        Inl e \<Rightarrow> False
      | Inr parsed \<Rightarrow>
          netloc parsed = domain s
          \<and> startswith (rstrip_slash (path parsed)) (base_path s)
          \<and> \<not> endswith_any u excluded_extensions)"

text \<open>
  The links of a document that \<open>extract_content\<close> leaves for \<open>extract_links\<close>, as the
  specification describes them: \<open>hrefs_kept\<close> collects the links of a forest that are
  not inside a script, style, nav, header or footer element; \<open>hrefs_pruned P\<close> collects
  every link of the document, except that below the first tag satisfying \<open>P\<close> (the main
  region) only the kept ones count.
\<close>

fun own_href :: "node \<Rightarrow> string list" where
  "own_href (Tag n cs h ks) = (case h of Some x \<Rightarrow> (if n = ''a'' then [x] else []) | None \<Rightarrow> [])"
| "own_href (NavigableString k s) = []"

fun kept_in :: "node \<Rightarrow> string list"
  and hrefs_kept :: "soup \<Rightarrow> string list" where
  "kept_in (NavigableString k s) = []"
| "kept_in (Tag n cs h ks) =
     (if is_removed (Tag n cs h ks) then [] else own_href (Tag n cs h ks) @ hrefs_kept ks)"
| "hrefs_kept [] = []"
| "hrefs_kept (k # ks) = kept_in k @ hrefs_kept ks"

fun pruned_in :: "(node \<Rightarrow> bool) \<Rightarrow> node \<Rightarrow> string list"
  and hrefs_pruned :: "(node \<Rightarrow> bool) \<Rightarrow> soup \<Rightarrow> string list" where
  "pruned_in P (NavigableString k s) = []"
| "pruned_in P (Tag n cs h ks) =
     own_href (Tag n cs h ks) @ (if P (Tag n cs h ks) then hrefs_kept ks else hrefs_pruned P ks)"
| "hrefs_pruned P [] = []"
| "hrefs_pruned P (k # ks) =
     (case find_in P k of
        Some r \<Rightarrow> pruned_in P k @ find_all_a_href ks
      | None \<Rightarrow> hrefs_in k @ hrefs_pruned P ks)"

definition frontier_inv :: "crawl \<Rightarrow> bool" where
  \<comment> \<open>The frontier at the head of the loop: the queue has no duplicates and holds
      queued URLs only; what was requested was queued, is no longer in the queue, and was
      requested once; what is visited was requested.\<close>
  "frontier_inv c =
     (distinct (urls_to_visit c)
      \<and> set (urls_to_visit c) \<subseteq> fset (queued_urls (self c))
      \<and> set (fetched c) \<subseteq> fset (queued_urls (self c))
      \<and> set (fetched c) \<inter> set (urls_to_visit c) = {}
      \<and> distinct (fetched c)
      \<and> fset (visited_urls (self c)) \<subseteq> set (fetched c))"

definition links_new :: "env \<Rightarrow> scraper \<Rightarrow> scraper \<Rightarrow> string list \<Rightarrow> bool" where
  \<comment> \<open>What link discovery may append to the queue when it takes the object from \<open>s\<close>
      to \<open>s'\<close>: distinct URLs, none queued before, all queued now, all in scope.\<close>
  "links_new E s s' new =
     (distinct new \<and> set new \<inter> fset (queued_urls s) = {}
      \<and> set new \<subseteq> fset (queued_urls s') \<and> (\<forall>x\<in>set new. scope_ok E s x))"

definition fetch_fails_spec :: "error + response \<Rightarrow> bool" where
  \<comment> \<open>A failed fetch in the specification's words: a network error or a timeout
      (\<open>requests.get\<close> raises), or a status that is not 2xx.\<close>
  "fetch_fails_spec r =
     (case r of
        Inl e \<Rightarrow> True
      | Inr resp \<Rightarrow> \<not> (200 \<le> status_code resp \<and> status_code resp < 300))"



section \<open>An example site\<close>

definition example_main :: node where
  "example_main =
     Tag ''main'' [] None
       [Tag ''nav'' [] None [Tag ''a'' [] (Some ''http://a.com/docs/hidden'') []],
        Tag ''h1'' [] None [NavigableString PlainString ''Docs''],
        Tag ''a'' [] (Some ''http://a.com/docs/intro'') [NavigableString PlainString ''Intro''],
        Tag ''a'' [] (Some ''http://other.com/x'') []]"

definition example_page :: soup where
  "example_page =
     [Tag ''body'' [] None
        [example_main,
         Tag ''footer'' [] None [Tag ''a'' [] (Some ''http://a.com/docs/legal'') []]]]"

definition example_env :: env where
  \<comment> \<open>One HTML page at \<open>http://a.com/docs\<close>; the server answers 404 for
      \<open>http://a.com/missing\<close> and 304, with no body, for \<open>http://a.com/cached\<close>; every
      other request raises. The links of the page are absolute, so \<open>urljoin\<close> returns
      them as they are.\<close>
  "example_env =
     \<lparr>bracketed_host_ok = (\<lambda>h. True),
      urljoin = (\<lambda>b h. Inr h),
      http_get = (\<lambda>t u.
         if u = ''http://a.com/docs''
         then Inr \<lparr>status_code = 200, content_type = ''text/html'', content = ''docs''\<rparr>
         else if u = ''http://a.com/missing''
         then Inr \<lparr>status_code = 404, content_type = ''text/html'', content = ''gone''\<rparr>
         else if u = ''http://a.com/cached''
         then Inr \<lparr>status_code = 304, content_type = '''', content = ''''\<rparr>
         else Inl RequestException),
      html_parser = (\<lambda>b. if b = ''docs'' then Inr example_page else Inr []),
      pdf_reader = (\<lambda>b. Inl PdfReadError),
      md = (\<lambda>t. concat (strings_in t))\<rparr>"

definition example_scraper :: scraper where
  \<comment> \<open>\<open>DocumentationScraper("http://a.com/docs", max_pages=5)\<close>\<close>
  "example_scraper =
     \<lparr>base_url = ''http://a.com/docs'', base_path = ''/docs'', max_pages = 5,
      visited_urls = {||}, queued_urls = {||}, documents = [], domain = ''a.com''\<rparr>"

definition example_crawl :: crawl where
  \<comment> \<open>The state of \<open>example_scraper.scrape()\<close> on entering the loop.\<close>
  "example_crawl =
     \<lparr>self = example_scraper\<lparr>queued_urls := {|''http://a.com/docs''|}\<rparr>,
      urls_to_visit = [''http://a.com/docs''], total_pages = 1, trace = []\<rparr>"

definition gone_scraper :: scraper where
  \<comment> \<open>\<open>DocumentationScraper("http://a.com/gone", max_pages=5)\<close>, whose seed cannot be
      fetched.\<close>
  "gone_scraper =
     \<lparr>base_url = ''http://a.com/gone'', base_path = ''/gone'', max_pages = 5,
      visited_urls = {||}, queued_urls = {||}, documents = [], domain = ''a.com''\<rparr>"

definition gone_crawl :: crawl where
  "gone_crawl =
     \<lparr>self = gone_scraper\<lparr>queued_urls := {|''http://a.com/gone''|}\<rparr>,
      urls_to_visit = [''http://a.com/gone''], total_pages = 1, trace = []\<rparr>"

definition missing_scraper :: scraper where
  \<comment> \<open>\<open>DocumentationScraper("http://a.com/missing", max_pages=5)\<close>, whose seed the
      server answers with 404.\<close>
  "missing_scraper =
     \<lparr>base_url = ''http://a.com/missing'', base_path = ''/missing'', max_pages = 5,
      visited_urls = {||}, queued_urls = {||}, documents = [], domain = ''a.com''\<rparr>"

definition missing_crawl :: crawl where
  "missing_crawl =
     \<lparr>self = missing_scraper\<lparr>queued_urls := {|''http://a.com/missing''|}\<rparr>,
      urls_to_visit = [''http://a.com/missing''], total_pages = 1, trace = []\<rparr>"

definition cached_scraper :: scraper where
  \<comment> \<open>\<open>DocumentationScraper("http://a.com/cached", max_pages=5)\<close>, whose seed the
      server answers with 304.\<close>
  "cached_scraper =
     \<lparr>base_url = ''http://a.com/cached'', base_path = ''/cached'', max_pages = 5,
      visited_urls = {||}, queued_urls = {||}, documents = [], domain = ''a.com''\<rparr>"

definition cached_crawl :: crawl where
  "cached_crawl =
     \<lparr>self = cached_scraper\<lparr>queued_urls := {|''http://a.com/cached''|}\<rparr>,
      urls_to_visit = [''http://a.com/cached''], total_pages = 1, trace = []\<rparr>"

definition negative_budget_crawl :: crawl where
  \<comment> \<open>\<open>DocumentationScraper("http://a.com/docs", max_pages=-1).scrape()\<close> on entering
      the loop.\<close>
  "negative_budget_crawl =
     \<lparr>self = example_scraper\<lparr>max_pages := - 1, queued_urls := {|''http://a.com/docs''|}\<rparr>,
      urls_to_visit = [''http://a.com/docs''], total_pages = - 1, trace = []\<rparr>"

definition logo_scraper :: scraper where
  \<comment> \<open>\<open>DocumentationScraper("http://a.com/logo.png", max_pages=5)\<close>\<close>
  "logo_scraper =
     \<lparr>base_url = ''http://a.com/logo.png'', base_path = ''/logo.png'', max_pages = 5,
      visited_urls = {||}, queued_urls = {||}, documents = [], domain = ''a.com''\<rparr>"

definition logo_crawl :: crawl where
  "logo_crawl =
     \<lparr>self = logo_scraper\<lparr>queued_urls := {|''http://a.com/logo.png''|}\<rparr>,
      urls_to_visit = [''http://a.com/logo.png''], total_pages = 1, trace = []\<rparr>"

section \<open>Strings and URLs: auxiliary facts\<close>

lemma takeWhile_is_replicate:
  "\<exists>k. takeWhile (\<lambda>c. c = a) xs = replicate k a"
proof (induction xs)
  case Nil
  show ?case by simp
next
  case (Cons x xs)
  then obtain k where k: "takeWhile (\<lambda>c. c = a) xs = replicate k a" by blast
  show ?case
  proof (cases "x = a")
    case True
    with k have "takeWhile (\<lambda>c. c = a) (x # xs) = replicate (Suc k) a" by simp
    then show ?thesis by blast
  next
    case False
    then have "takeWhile (\<lambda>c. c = a) (x # xs) = replicate 0 a" by simp
    then show ?thesis by blast
  qed
qed

lemma rstrip_slash_decomp:
  "\<exists>k. s = rstrip_slash s @ replicate k (CHR ''/'')"
proof -
  let ?P = "\<lambda>c. c = CHR ''/''"
  obtain k where k: "takeWhile ?P (rev s) = replicate k (CHR ''/'')"
    using takeWhile_is_replicate[of "CHR ''/''" "rev s"] ..
  have "s = rev (takeWhile ?P (rev s) @ dropWhile ?P (rev s))" by simp
  also have "\<dots> = rev (dropWhile ?P (rev s)) @ rev (takeWhile ?P (rev s))"
    by (simp only: rev_append)
  also have "\<dots> = rstrip_slash s @ replicate k (CHR ''/'')"
    by (simp add: k rstrip_slash_def)
  finally show ?thesis by (rule exI)
qed

lemma rstrip_slash_no_trailing:
  "rstrip_slash s = [] \<or> last (rstrip_slash s) \<noteq> CHR ''/''"
proof (cases "dropWhile (\<lambda>c. c = CHR ''/'') (rev s)")
  case Nil
  then show ?thesis by (simp add: rstrip_slash_def)
next
  case (Cons a as)
  then have "a \<noteq> CHR ''/''" using hd_dropWhile[of "\<lambda>c. c = CHR ''/''" "rev s"] by auto
  with Cons show ?thesis by (simp add: rstrip_slash_def)
qed

lemma rstrip_slash_idem: "rstrip_slash (rstrip_slash s) = rstrip_slash s"
  by (simp add: rstrip_slash_def)

lemma set_rstrip_slash: "set (rstrip_slash s) \<subseteq> set s"
  by (auto simp: rstrip_slash_def dest: set_dropWhileD)

lemma before_hash_no_hash: "CHR ''#'' \<notin> set (before_hash u)"
  by (auto simp: before_hash_def dest: set_takeWhileD)

lemma before_hash_id: "CHR ''#'' \<notin> set v \<Longrightarrow> before_hash v = v"
  by (auto simp: before_hash_def takeWhile_eq_all_conv)

lemma clean_url_slashes:
  "clean_url (r @ replicate k (CHR ''/'')) = clean_url r @ replicate k (CHR ''/'')"
proof (cases "\<forall>c\<in>set r. c0_control_or_space c")
  case True
  then have "dropWhile c0_control_or_space (r @ replicate k (CHR ''/'')) =
             dropWhile c0_control_or_space (replicate k (CHR ''/''))"
    by (simp add: dropWhile_append2)
  also have "\<dots> = replicate k (CHR ''/'')"
    by (cases k) (simp_all add: c0_control_or_space_def)
  finally have a: "dropWhile c0_control_or_space (r @ replicate k (CHR ''/'')) = replicate k (CHR ''/'')" .
  from True have b: "dropWhile c0_control_or_space r = []" by simp
  show ?thesis by (simp add: clean_url_def a b unsafe_url_byte_def)
next
  case False
  then obtain x where "x \<in> set r" "\<not> c0_control_or_space x" by blast
  then have "dropWhile c0_control_or_space (r @ replicate k (CHR ''/'')) =
             dropWhile c0_control_or_space r @ replicate k (CHR ''/'')"
    by (simp add: dropWhile_append1)
  then show ?thesis by (simp add: clean_url_def unsafe_url_byte_def)
qed

lemma split_scheme_slashes:
  "split_scheme (a @ replicate k (CHR ''/'')) =
     (fst (split_scheme a), snd (split_scheme a) @ replicate k (CHR ''/''))"
proof (cases "CHR '':'' \<in> set a")
  case True
  then have tw: "takeWhile (\<lambda>c. c \<noteq> CHR '':'') (a @ replicate k (CHR ''/'')) = takeWhile (\<lambda>c. c \<noteq> CHR '':'') a"
    by (intro takeWhile_append1[of "CHR '':''"]) auto
  from True have dw: "dropWhile (\<lambda>c. c \<noteq> CHR '':'') (a @ replicate k (CHR ''/''))
      = dropWhile (\<lambda>c. c \<noteq> CHR '':'') a @ replicate k (CHR ''/'')"
    by (intro dropWhile_append1[of "CHR '':''"]) auto
  from True have ne: "dropWhile (\<lambda>c. c \<noteq> CHR '':'') a \<noteq> []" by (simp add: dropWhile_eq_Nil_conv)
  from True have ane: "a \<noteq> []" by auto
  show ?thesis using True ne ane
    by (simp add: split_scheme_def Let_def tw dw)
next
  case False
  then show ?thesis by (simp add: split_scheme_def Let_def)
qed

lemma takeWhile_append_stop:
  "\<forall>y\<in>set ys. \<not> P y \<Longrightarrow> takeWhile P (xs @ ys) = takeWhile P xs"
proof (induction xs)
  case Nil
  then show ?case by (cases ys) simp_all
next
  case (Cons x xs)
  then show ?case by simp
qed

lemma urlparse_Inl_iff: "(\<exists>e. urlparse E x = Inl e) \<longleftrightarrow> urlparse_raises E x"
  by (simp add: urlparse_def urlparse_raises_def Let_def split_beta)

lemma urlparse_raises_slashes:
  assumes "urlparse_raises E r"
  shows "urlparse_raises E (r @ replicate k (CHR ''/''))"
proof -
  let ?sl = "replicate k (CHR ''/'')"
  let ?u = "snd (split_scheme (clean_url r))"
  have u2: "snd (split_scheme (clean_url (r @ ?sl))) = ?u @ ?sl"
    by (simp add: clean_url_slashes split_scheme_slashes)
  from assms have t: "take 2 ?u = ''//''" and nr: "netloc_raises E (fst (splitnetloc ?u))"
    by (simp_all add: urlparse_raises_def Let_def)
  from t have len: "2 \<le> length ?u"
  proof -
    have "length (take 2 ?u) = 2" by (simp only: t) simp
    then show ?thesis by simp
  qed
  then have t': "take 2 (?u @ ?sl) = ''//''" using t by simp
  have "fst (splitnetloc (?u @ ?sl)) = fst (splitnetloc ?u)"
    using len by (simp add: splitnetloc_def takeWhile_append_stop netloc_delim_def)
  with nr t' u2 show ?thesis by (simp add: urlparse_raises_def Let_def)
qed

lemma urlparse_rstrip_ok:
  assumes "urlparse E x = Inr p"
  shows "\<exists>p'. urlparse E (rstrip_slash x) = Inr p'"
proof (rule ccontr)
  assume "\<not> ?thesis"
  then obtain e where "urlparse E (rstrip_slash x) = Inl e"
    by (cases "urlparse E (rstrip_slash x)") auto
  then have r: "urlparse_raises E (rstrip_slash x)" using urlparse_Inl_iff[of E "rstrip_slash x"] by blast
  obtain k where k: "x = rstrip_slash x @ replicate k (CHR ''/'')"
    using rstrip_slash_decomp[of x] ..
  have "urlparse_raises E x"
    by (subst k) (rule urlparse_raises_slashes[OF r])
  then obtain e' where "urlparse E x = Inl e'" using urlparse_Inl_iff[of E x] by blast
  with assms show False by simp
qed

lemma before_hash_decomp:
  "\<exists>rest. u = before_hash u @ rest \<and> (rest = [] \<or> hd rest = CHR ''#'')"
proof -
  let ?rest = "dropWhile (\<lambda>c. c \<noteq> CHR ''#'') u"
  have "u = before_hash u @ ?rest" by (simp add: before_hash_def)
  moreover have "?rest = [] \<or> hd ?rest = CHR ''#''"
    using hd_dropWhile[of "\<lambda>c. c \<noteq> CHR ''#''" u] by blast
  ultimately show ?thesis by (intro exI conjI)
qed

lemma startswith_prefix: "startswith s p \<longleftrightarrow> prefix p s"
proof
  assume "startswith s p"
  then have "s = p @ drop (length p) s"
    by (metis startswith_def append_take_drop_id)
  then show "prefix p s" by (rule prefixI)
next
  assume "prefix p s"
  then obtain zs where "s = p @ zs" by (rule prefixE)
  then show "startswith s p" by (simp add: startswith_def)
qed

lemma endswith_suffix: "endswith s x \<longleftrightarrow> suffix x s"
proof
  assume a: "endswith s x"
  then have "s = take (length s - length x) s @ x"
    by (metis endswith_def append_take_drop_id)
  then show "suffix x s" by (rule suffixI)
next
  assume "suffix x s"
  then obtain zs where "s = zs @ x" by (rule suffixE)
  then show "endswith s x" by (simp add: endswith_def)
qed

lemma endswith_any_iff: "endswith_any s xs \<longleftrightarrow> (\<exists>x\<in>set xs. suffix x s)"
  by (simp add: endswith_any_def list_ex_iff endswith_suffix)

lemma example_init: "init example_env ''http://a.com/docs'' 5 = Inr example_scraper"
  by code_simp

section \<open>The scope filter\<close>

text \<open>
  C4 (amended). For every URL on which \<open>urlparse\<close> returns, the scope filter returns
  true if and only if (a) the netloc of the URL equals the job's domain, (b) the path,
  with all its trailing slashes stripped, starts with the base path, (c) the URL is in
  neither \<open>visited_urls\<close> nor \<open>queued_urls\<close>, and (d) the URL string itself (not its
  path) ends with none of \<open>.zip\<close>, \<open>.tar.gz\<close>, \<open>.jpg\<close>, \<open>.png\<close>, \<open>.gif\<close>, \<open>.svg\<close>,
  \<open>.ico\<close>. Where \<open>urlparse\<close> raises, the filter raises before any condition is looked
  at.
\<close>

theorem is_valid_url_conditions:
  "is_valid_url E s u =
     (case urlparse E u of
        Inl e \<Rightarrow> Inl e
      | Inr p \<Rightarrow>
          Inr (netloc p = domain s
               \<and> prefix (base_path s) (rstrip_slash (path p))
               \<and> u |\<notin>| visited_urls s \<and> u |\<notin>| queued_urls s
               \<and> \<not> (\<exists>x\<in>set excluded_extensions. suffix x u)))"
  by (cases "urlparse E u")
     (simp_all add: is_valid_url_def startswith_prefix endswith_any_iff)

theorem is_valid_url_conditions_witness:
  "is_valid_url example_env example_scraper ''http://a.com/docs/intro'' = Inr True
   \<and> is_valid_url example_env example_scraper ''http://a.com/docs/logo.png'' = Inr False
   \<and> is_valid_url example_env example_scraper ''http://other.com/docs/intro'' = Inr False
   \<and> is_valid_url example_env example_scraper ''http://a.com/blog'' = Inr False"
proof -
  have p1: "urlparse example_env ''http://a.com/docs/intro'' =
        Inr \<lparr>scheme = ''http'', netloc = ''a.com'', path = ''/docs/intro'', params = '''',
             query = '''', fragment = ''''\<rparr>"
    by code_simp
  have p2: "urlparse example_env ''http://a.com/docs/logo.png'' =
        Inr \<lparr>scheme = ''http'', netloc = ''a.com'', path = ''/docs/logo.png'', params = '''',
             query = '''', fragment = ''''\<rparr>"
    by code_simp
  have p3: "urlparse example_env ''http://other.com/docs/intro'' =
        Inr \<lparr>scheme = ''http'', netloc = ''other.com'', path = ''/docs/intro'', params = '''',
             query = '''', fragment = ''''\<rparr>"
    by code_simp
  have p4: "urlparse example_env ''http://a.com/blog'' =
        Inr \<lparr>scheme = ''http'', netloc = ''a.com'', path = ''/blog'', params = '''',
             query = '''', fragment = ''''\<rparr>"
    by code_simp
  have r: "rstrip_slash ''/docs/intro'' = ''/docs/intro''" "rstrip_slash ''/blog'' = ''/blog''"
    "rstrip_slash ''/docs/logo.png'' = ''/docs/logo.png''"
    by (simp_all add: rstrip_slash_def)
  show ?thesis
    using is_valid_url_conditions[of example_env example_scraper "''http://a.com/docs/intro''"]
      is_valid_url_conditions[of example_env example_scraper "''http://a.com/docs/logo.png''"]
      is_valid_url_conditions[of example_env example_scraper "''http://other.com/docs/intro''"]
      is_valid_url_conditions[of example_env example_scraper "''http://a.com/blog''"]
    by (simp add: p1 p2 p3 p4 r example_scraper_def excluded_extensions_def suffix_to_prefix)
qed

text \<open>
  The claim as the specification states it, with condition (d) on the path, fails at
  \<open>http://a.com/docs/x?f=a.png\<close>: host, path prefix and membership pass and the path
  \<open>/docs/x\<close> has no excluded extension, yet the filter returns false, because the URL
  string ends with \<open>.png\<close>.
\<close>

theorem is_valid_url_path_extension_counterexample:
  "is_valid_url example_env example_scraper ''http://a.com/docs/x?f=a.png'' = Inr False
   \<and> is_valid_url_spec example_env example_scraper ''http://a.com/docs/x?f=a.png'' = Inr True"
  by code_simp

section \<open>The normalizer\<close>

text \<open>
  C7 (amended). For every URL string \<open>u\<close> on which \<open>urlparse\<close> returns, the normalizer
  drops everything from the first \<open>#\<close> onward and then, if the path component is not
  exactly \<open>/\<close>, strips every trailing slash of what is left (not a single one); when
  the path is exactly \<open>/\<close> nothing more is stripped. So \<open>u\<close> is the result \<open>v\<close>, then
  \<open>k\<close> slashes, then the fragment part; \<open>v\<close> has no \<open>#\<close>; \<open>k = 0\<close> for the root path,
  and otherwise \<open>v\<close> does not end with a slash.
\<close>

theorem normalize_url_strips_all_slashes:
  assumes "urlparse E (before_hash u) = Inr p"
  shows "\<exists>v k rest. normalize_url E u = Inr v
           \<and> u = v @ replicate k (CHR ''/'') @ rest
           \<and> CHR ''#'' \<notin> set v
           \<and> (rest = [] \<or> hd rest = CHR ''#'')
           \<and> (if path p = ''/'' then k = 0 else v = [] \<or> last v \<noteq> CHR ''/'')"
proof -
  obtain rest where rest: "u = before_hash u @ rest" "rest = [] \<or> hd rest = CHR ''#''"
    using before_hash_decomp[of u] by (elim exE conjE)
  show ?thesis
  proof (cases "path p = ''/''")
    case True
    with assms have n: "normalize_url E u = Inr (before_hash u)"
      by (simp add: normalize_url_def Let_def)
    have u: "u = before_hash u @ replicate 0 (CHR ''/'') @ rest"
      by (subst rest(1)) simp
    have nh: "CHR ''#'' \<notin> set (before_hash u)" by (rule before_hash_no_hash)
    have "normalize_url E u = Inr (before_hash u)
           \<and> u = before_hash u @ replicate 0 (CHR ''/'') @ rest
           \<and> CHR ''#'' \<notin> set (before_hash u)
           \<and> (rest = [] \<or> hd rest = CHR ''#'')
           \<and> (if path p = ''/'' then (0::nat) = 0
               else before_hash u = [] \<or> last (before_hash u) \<noteq> CHR ''/'')"
      using n u nh rest(2) True by (intro conjI) simp_all
    then show ?thesis by (intro exI)
  next
    case False
    let ?v = "rstrip_slash (before_hash u)"
    from False assms have n: "normalize_url E u = Inr ?v"
      by (simp add: normalize_url_def Let_def)
    obtain k where k: "before_hash u = ?v @ replicate k (CHR ''/'')"
      using rstrip_slash_decomp[of "before_hash u"] ..
    have u: "u = ?v @ replicate k (CHR ''/'') @ rest"
      by (subst rest(1), subst k) simp
    have nh: "CHR ''#'' \<notin> set ?v"
      using before_hash_no_hash[of u] set_rstrip_slash[of "before_hash u"] by blast
    have nt: "?v = [] \<or> last ?v \<noteq> CHR ''/''" by (rule rstrip_slash_no_trailing)
    have "normalize_url E u = Inr ?v
           \<and> u = ?v @ replicate k (CHR ''/'') @ rest
           \<and> CHR ''#'' \<notin> set ?v
           \<and> (rest = [] \<or> hd rest = CHR ''#'')
           \<and> (if path p = ''/'' then k = 0 else ?v = [] \<or> last ?v \<noteq> CHR ''/'')"
      using n u nh rest(2) nt False by (intro conjI) simp_all
    then show ?thesis by (intro exI)
  qed
qed

theorem normalize_url_strips_all_slashes_witness:
  "urlparse example_env (before_hash ''http://a.com/docs//#top'') =
     Inr \<lparr>scheme = ''http'', netloc = ''a.com'', path = ''/docs//'', params = '''',
          query = '''', fragment = ''''\<rparr>
   \<and> (\<exists>v k rest. normalize_url example_env ''http://a.com/docs//#top'' = Inr v
           \<and> ''http://a.com/docs//#top'' = v @ replicate k (CHR ''/'') @ rest
           \<and> CHR ''#'' \<notin> set v
           \<and> (rest = [] \<or> hd rest = CHR ''#'')
           \<and> (v = [] \<or> last v \<noteq> CHR ''/''))
   \<and> normalize_url example_env ''http://a.com/docs//#top'' = Inr ''http://a.com/docs''
   \<and> normalize_url example_env ''http://a.com/#top'' = Inr ''http://a.com/''"
proof -
  have h: "urlparse example_env (before_hash ''http://a.com/docs//#top'') =
     Inr \<lparr>scheme = ''http'', netloc = ''a.com'', path = ''/docs//'', params = '''',
          query = '''', fragment = ''''\<rparr>"
    by code_simp
  have a: "normalize_url example_env ''http://a.com/docs//#top'' = Inr ''http://a.com/docs''"
    by code_simp
  have b: "normalize_url example_env ''http://a.com/#top'' = Inr ''http://a.com/''"
    by code_simp
  from normalize_url_strips_all_slashes[OF h]
  have c: "\<exists>v k rest. normalize_url example_env ''http://a.com/docs//#top'' = Inr v
           \<and> ''http://a.com/docs//#top'' = v @ replicate k (CHR ''/'') @ rest
           \<and> CHR ''#'' \<notin> set v
           \<and> (rest = [] \<or> hd rest = CHR ''#'')
           \<and> (v = [] \<or> last v \<noteq> CHR ''/'')"
    by simp
  from h c a b show ?thesis by (intro conjI)
qed

text \<open>
  The claim as the specification states it (a single trailing slash is stripped, so
  a URL ending in several slashes loses exactly one) fails at \<open>http://a.com/docs//\<close>:
  the code returns \<open>http://a.com/docs\<close>, two slashes shorter.
\<close>

theorem normalize_url_single_slash_counterexample:
  "normalize_url example_env ''http://a.com/docs//'' = Inr ''http://a.com/docs''
   \<and> normalize_url_spec example_env ''http://a.com/docs//'' = Inr ''http://a.com/docs/''"
  by code_simp

text \<open>
  C8. URL normalization is idempotent: whenever \<open>normalize_url\<close> returns \<open>v\<close> on \<open>u\<close>,
  it returns \<open>v\<close> on \<open>v\<close>; in particular the second call does not raise.
\<close>

theorem normalize_url_idempotent:
  assumes "normalize_url E u = Inr v"
  shows "normalize_url E v = Inr v"
proof -
  let ?u1 = "before_hash u"
  from assms obtain p where p: "urlparse E ?u1 = Inr p"
    by (cases "urlparse E ?u1") (simp_all add: normalize_url_def Let_def)
  have nohash: "CHR ''#'' \<notin> set v"
    using assms p before_hash_no_hash[of u] set_rstrip_slash[of ?u1]
    by (auto simp: normalize_url_def Let_def split: if_splits)
  then have bh: "before_hash v = v" by (rule before_hash_id)
  show ?thesis
  proof (cases "path p = ''/''")
    case True
    with assms p have "v = ?u1" by (simp add: normalize_url_def Let_def)
    with p True bh show ?thesis by (simp add: normalize_url_def Let_def)
  next
    case False
    with assms p have v: "v = rstrip_slash ?u1" by (simp add: normalize_url_def Let_def)
    from urlparse_rstrip_ok[OF p] v obtain p' where "urlparse E v = Inr p'" by auto
    then show ?thesis using bh v rstrip_slash_idem[of ?u1]
      by (simp add: normalize_url_def Let_def)
  qed
qed

theorem normalize_url_idempotent_witness:
  "normalize_url example_env ''http://a.com/docs//#top'' = Inr ''http://a.com/docs''
   \<and> normalize_url example_env ''http://a.com/docs'' = Inr ''http://a.com/docs''"
proof -
  have h: "normalize_url example_env ''http://a.com/docs//#top'' = Inr ''http://a.com/docs''"
    by code_simp
  from h normalize_url_idempotent[OF h] show ?thesis by (rule conjI)
qed

section \<open>The extractors do not raise\<close>

lemma extract_content_raises_iff:
  "(\<exists>e. snd (extract_content E sp u) = Inl e) \<longleftrightarrow> find_main sp = None"
  by (cases "find_main sp") (auto simp: extract_content_def Let_def)

lemma extract_content_body_fallback:
  assumes "soup_find (is_named ''main'') sp = None"
    and "soup_find (is_named ''article'') sp = None"
    and "soup_find is_content_div sp = None"
    and "soup_find (is_named ''body'') sp = Some b"
  shows "\<exists>t. extract_content E sp u =
           (update_first (is_named ''body'') decompose_in sp,
            Inr \<lparr>url = u, title = t, content_md = md E (decompose_in b)\<rparr>)"
proof -
  from assms have "find_main sp = Some (is_named ''body'', b)"
    by (simp add: find_main_def)
  then show ?thesis by (simp add: extract_content_def Let_def)
qed

lemma extract_pdf_content_malformed:
  "pdf_reader E pdf_bytes = Inl e \<Longrightarrow>
   extract_pdf_content E pdf_bytes u =
     (\<lparr>url = u, title = last_segment u, content_md = ''''\<rparr>, [WarnPdf u e])"
  by (simp add: extract_pdf_content_def)

text \<open>
  C6. Neither extractor is meant to raise past its boundary. The PDF extractor keeps
  that promise (\<open>extract_pdf_content_malformed\<close>), and so does the HTML extractor
  whenever the document has a \<open>body\<close> element (\<open>extract_content_body_fallback\<close>). But
  \<open>html.parser\<close> adds no \<open>body\<close> to a document that has none, \<open>soup.find("body")\<close> is
  then \<open>None\<close>, and \<open>extract_content\<close> raises \<open>AttributeError\<close>: here on the document
  \<open><p>hello</p>\<close>, which has no main, article, content div or body element.
\<close>

theorem extract_content_no_body_raises:
  "extract_content E [Tag ''p'' [] None [NavigableString PlainString ''hello'']] u =
     ([Tag ''p'' [] None [NavigableString PlainString ''hello'']], Inl AttributeError)"
  by (simp add: extract_content_def find_main_def)

section \<open>Fetch failure\<close>

lemma raise_for_status_iff:
  "raise_for_status resp = Some e \<longleftrightarrow>
     400 \<le> status_code resp \<and> status_code resp < 600 \<and> e = HTTPError"
  "raise_for_status resp = None \<longleftrightarrow> \<not> (400 \<le> status_code resp \<and> status_code resp < 600)"
  by (auto simp: raise_for_status_def)

lemma try_body_fetch_raises:
  "fetch E (length (trace c)) u = Inl e \<Longrightarrow>
   try_body E c u = (c\<lparr>trace := trace c @ [HttpGet u]\<rparr>, Some e)"
  by (simp add: try_body_def Let_def)

lemma try_body_fetch_returns:
  assumes "fetch E (length (trace c)) u = Inr resp"
    and "try_body E c u = (c', r)"
  shows "visited_urls (self c') = finsert u (visited_urls (self c))"
proof -
  define c1 where "c1 = (c\<lparr>trace := trace c @ [HttpGet u]\<rparr>)
      \<lparr>self := (self c)\<lparr>visited_urls := finsert u (visited_urls (self c))\<rparr>\<rparr>"
  have c1: "visited_urls (self c1) = finsert u (visited_urls (self c))"
    by (simp add: c1_def)
  show ?thesis
  proof (cases "endswith u ''.pdf'' \<or> contains ''application/pdf'' (lower (content_type resp))")
    case True
    obtain doc logged where ep: "extract_pdf_content E (content resp) u = (doc, logged)"
      by (cases "extract_pdf_content E (content resp) u")
    from assms True ep
    have "c' = end_of_try (add_document doc (c1\<lparr>trace := trace c1 @ logged\<rparr>))"
      by (simp add: try_body_def Let_def c1_def)
    then show ?thesis
      by (simp add: end_of_try_frame add_document_frame c1)
  next
    case False
    show ?thesis
    proof (cases "html_parser E (content resp)")
      case (Inl e)
      with assms False have "c' = c1"
        by (simp add: try_body_def Let_def c1_def)
      then show ?thesis by (simp add: c1)
    next
      case sp: (Inr sp)
      obtain c2 r2 where hh: "handle_html E c1 u sp = (c2, r2)"
        by (cases "handle_html E c1 u sp")
      have fr: "visited_urls (self c2) = finsert u (visited_urls (self c))"
        using handle_html_frame[OF hh] by (simp add: c1)
      from assms False sp hh
      have "(c', r) = (case r2 of Some e \<Rightarrow> (c2, Some e) | None \<Rightarrow> (end_of_try c2, None))"
        by (simp add: try_body_def Let_def c1_def)
      then have "self c' = self c2"
        by (cases r2) (simp_all add: end_of_try_frame)
      with fr show ?thesis by simp
    qed
  qed
qed

text \<open>
  C5 (amended). The fetch of the URL \<open>u\<close> at the head of the queue fails when
  \<open>requests.get\<close> raises (a network error, a timeout) or when the status of the response
  is 4xx or 5xx, for which \<open>raise_for_status\<close> raises \<open>HTTPError\<close>. Then the pass logs a
  warning and ends: \<open>u\<close> is not added to \<open>visited_urls\<close>, and \<open>visited_urls\<close>,
  \<open>queued_urls\<close> and \<open>documents\<close> are as before; the state reached is the next head of
  the loop, with \<open>u\<close> taken off the queue. A response of any other status, a 304 or a
  3xx without a redirect target just as a 2xx, is no failure: \<open>u\<close> is added to
  \<open>visited_urls\<close>.
\<close>

theorem fetch_failure_leaves_state:
  assumes "urls_to_visit c = u # rest"
    and "u |\<notin>| visited_urls (self c)"
  shows "(http_get E (Suc (length (trace c))) u = Inl e
          \<or> (\<exists>resp. http_get E (Suc (length (trace c))) u = Inr resp
                \<and> 400 \<le> status_code resp \<and> status_code resp < 600 \<and> e = HTTPError)
          \<longrightarrow> visited_urls (self (scrape_iter E c)) = visited_urls (self c)
            \<and> queued_urls (self (scrape_iter E c)) = queued_urls (self c)
            \<and> documents (self (scrape_iter E c)) = documents (self c)
            \<and> u |\<notin>| visited_urls (self (scrape_iter E c))
            \<and> urls_to_visit (scrape_iter E c) = rest
            \<and> trace (scrape_iter E c) =
                trace c @ [LogInfo (fcard (visited_urls (self c)) + 1) (total_pages c) u,
                           HttpGet u, WarnScraping u e])
       \<and> (\<forall>resp. http_get E (Suc (length (trace c))) u = Inr resp
                \<and> \<not> (400 \<le> status_code resp \<and> status_code resp < 600)
          \<longrightarrow> visited_urls (self (scrape_iter E c)) = finsert u (visited_urls (self c)))"
proof (rule conjI)
  have len: "length (trace (dequeue c u rest)) = Suc (length (trace c))"
    by (simp add: dequeue_frame)
  show "http_get E (Suc (length (trace c))) u = Inl e
          \<or> (\<exists>resp. http_get E (Suc (length (trace c))) u = Inr resp
                \<and> 400 \<le> status_code resp \<and> status_code resp < 600 \<and> e = HTTPError)
          \<longrightarrow> visited_urls (self (scrape_iter E c)) = visited_urls (self c)
            \<and> queued_urls (self (scrape_iter E c)) = queued_urls (self c)
            \<and> documents (self (scrape_iter E c)) = documents (self c)
            \<and> u |\<notin>| visited_urls (self (scrape_iter E c))
            \<and> urls_to_visit (scrape_iter E c) = rest
            \<and> trace (scrape_iter E c) =
                trace c @ [LogInfo (fcard (visited_urls (self c)) + 1) (total_pages c) u,
                           HttpGet u, WarnScraping u e]"
  proof (rule impI)
    assume "http_get E (Suc (length (trace c))) u = Inl e
            \<or> (\<exists>resp. http_get E (Suc (length (trace c))) u = Inr resp
                  \<and> 400 \<le> status_code resp \<and> status_code resp < 600 \<and> e = HTTPError)"
    then have "fetch E (Suc (length (trace c))) u = Inl e"
    proof
      assume "http_get E (Suc (length (trace c))) u = Inl e"
      then show ?thesis by (simp add: fetch_def)
    next
      assume "\<exists>resp. http_get E (Suc (length (trace c))) u = Inr resp
                  \<and> 400 \<le> status_code resp \<and> status_code resp < 600 \<and> e = HTTPError"
      then obtain resp where g: "http_get E (Suc (length (trace c))) u = Inr resp"
        and st: "400 \<le> status_code resp \<and> status_code resp < 600 \<and> e = HTTPError"
        by (elim exE conjE) simp
      from st have "raise_for_status resp = Some e"
        by (simp add: raise_for_status_iff)
      with g show ?thesis by (simp add: fetch_def)
    qed
    then have "fetch E (length (trace (dequeue c u rest))) u = Inl e"
      by (simp add: len)
    from try_body_fetch_raises[OF this]
    have tb: "try_body E (dequeue c u rest) u =
        ((dequeue c u rest)\<lparr>trace := trace (dequeue c u rest) @ [HttpGet u]\<rparr>, Some e)" .
    from scrape_iter_try[OF assms(1,2) tb] assms(2)
    show "visited_urls (self (scrape_iter E c)) = visited_urls (self c)
              \<and> queued_urls (self (scrape_iter E c)) = queued_urls (self c)
              \<and> documents (self (scrape_iter E c)) = documents (self c)
              \<and> u |\<notin>| visited_urls (self (scrape_iter E c))
              \<and> urls_to_visit (scrape_iter E c) = rest
              \<and> trace (scrape_iter E c) =
                  trace c @ [LogInfo (fcard (visited_urls (self c)) + 1) (total_pages c) u,
                             HttpGet u, WarnScraping u e]"
      by (simp add: dequeue_frame)
  qed
next
  have len: "length (trace (dequeue c u rest)) = Suc (length (trace c))"
    by (simp add: dequeue_frame)
  show "\<forall>resp. http_get E (Suc (length (trace c))) u = Inr resp
                \<and> \<not> (400 \<le> status_code resp \<and> status_code resp < 600)
          \<longrightarrow> visited_urls (self (scrape_iter E c)) = finsert u (visited_urls (self c))"
  proof (intro allI impI)
    fix resp
    assume a: "http_get E (Suc (length (trace c))) u = Inr resp
                  \<and> \<not> (400 \<le> status_code resp \<and> status_code resp < 600)"
    then have "raise_for_status resp = None"
      by (simp add: raise_for_status_iff)
    with a have f: "fetch E (length (trace (dequeue c u rest))) u = Inr resp"
      by (simp add: fetch_def len)
    obtain c2 r where tb: "try_body E (dequeue c u rest) u = (c2, r)"
      by (cases "try_body E (dequeue c u rest) u")
    from try_body_fetch_returns[OF f tb]
    have v: "visited_urls (self c2) = finsert u (visited_urls (self c))"
      by (simp add: dequeue_frame)
    from scrape_iter_try[OF assms(1,2) tb]
    have "self (scrape_iter E c) = self c2" by (cases r) simp_all
    with v show "visited_urls (self (scrape_iter E c)) = finsert u (visited_urls (self c))"
      by simp
  qed
qed

theorem fetch_failure_leaves_state_witness:
  "urls_to_visit missing_crawl = ''http://a.com/missing'' # []
   \<and> ''http://a.com/missing'' |\<notin>| visited_urls (self missing_crawl)
   \<and> http_get example_env (Suc (length (trace missing_crawl))) ''http://a.com/missing'' =
       Inr \<lparr>status_code = 404, content_type = ''text/html'', content = ''gone''\<rparr>
   \<and> visited_urls (self (scrape_iter example_env missing_crawl)) = {||}
   \<and> queued_urls (self (scrape_iter example_env missing_crawl)) = {|''http://a.com/missing''|}
   \<and> documents (self (scrape_iter example_env missing_crawl)) = []
   \<and> urls_to_visit (scrape_iter example_env missing_crawl) = []
   \<and> trace (scrape_iter example_env missing_crawl) =
       [LogInfo 1 1 ''http://a.com/missing'', HttpGet ''http://a.com/missing'',
        WarnScraping ''http://a.com/missing'' HTTPError]
   \<and> http_get example_env (Suc (length (trace gone_crawl))) ''http://a.com/gone'' =
       Inl RequestException
   \<and> visited_urls (self (scrape_iter example_env gone_crawl)) = {||}
   \<and> http_get example_env (Suc (length (trace cached_crawl))) ''http://a.com/cached'' =
       Inr \<lparr>status_code = 304, content_type = '''', content = ''''\<rparr>
   \<and> visited_urls (self (scrape_iter example_env cached_crawl)) = {|''http://a.com/cached''|}"
proof -
  have a: "urls_to_visit missing_crawl = ''http://a.com/missing'' # []"
    by (simp add: missing_crawl_def)
  have b: "''http://a.com/missing'' |\<notin>| visited_urls (self missing_crawl)"
    by (simp add: missing_crawl_def missing_scraper_def)
  have c: "http_get example_env (Suc (length (trace missing_crawl))) ''http://a.com/missing'' =
       Inr \<lparr>status_code = 404, content_type = ''text/html'', content = ''gone''\<rparr>"
    by (simp add: example_env_def)
  have a2: "urls_to_visit gone_crawl = ''http://a.com/gone'' # []"
    by (simp add: gone_crawl_def)
  have b2: "''http://a.com/gone'' |\<notin>| visited_urls (self gone_crawl)"
    by (simp add: gone_crawl_def gone_scraper_def)
  have c2: "http_get example_env (Suc (length (trace gone_crawl))) ''http://a.com/gone'' =
       Inl RequestException"
    by (simp add: example_env_def)
  have a3: "urls_to_visit cached_crawl = ''http://a.com/cached'' # []"
    by (simp add: cached_crawl_def)
  have b3: "''http://a.com/cached'' |\<notin>| visited_urls (self cached_crawl)"
    by (simp add: cached_crawl_def cached_scraper_def)
  have c3: "http_get example_env (Suc (length (trace cached_crawl))) ''http://a.com/cached'' =
       Inr \<lparr>status_code = 304, content_type = '''', content = ''''\<rparr>"
    by (simp add: example_env_def)
  have v: "visited_urls (self missing_crawl) = {||}"
    "queued_urls (self missing_crawl) = {|''http://a.com/missing''|}"
    "documents (self missing_crawl) = []" "trace missing_crawl = []"
    "total_pages missing_crawl = 1"
    "visited_urls (self gone_crawl) = {||}" "visited_urls (self cached_crawl) = {||}"
    by (simp_all add: missing_crawl_def missing_scraper_def gone_crawl_def gone_scraper_def
        cached_crawl_def cached_scraper_def)
  from fetch_failure_leaves_state[OF a b, of example_env HTTPError] c
  have m: "visited_urls (self (scrape_iter example_env missing_crawl)) = {||}
   \<and> queued_urls (self (scrape_iter example_env missing_crawl)) = {|''http://a.com/missing''|}
   \<and> documents (self (scrape_iter example_env missing_crawl)) = []
   \<and> urls_to_visit (scrape_iter example_env missing_crawl) = []
   \<and> trace (scrape_iter example_env missing_crawl) =
       [LogInfo 1 1 ''http://a.com/missing'', HttpGet ''http://a.com/missing'',
        WarnScraping ''http://a.com/missing'' HTTPError]"
    by (simp add: v fcard_fempty)
  from fetch_failure_leaves_state[OF a2 b2, of example_env RequestException] c2
  have g: "visited_urls (self (scrape_iter example_env gone_crawl)) = {||}"
    by (simp add: v)
  from fetch_failure_leaves_state[OF a3 b3, of example_env] c3
  have n: "visited_urls (self (scrape_iter example_env cached_crawl)) = {|''http://a.com/cached''|}"
    by (simp add: v)
  from a b c m c2 g c3 n show ?thesis by (intro conjI) (elim conjE, assumption)+
qed

text \<open>
  The claim as the specification states it (every status that is not 2xx is a failed
  fetch, after which the URL is not in \<open>visited_urls\<close>) fails for the response 304 to
  \<open>http://a.com/cached\<close>: \<open>raise_for_status\<close> returns, and the pass adds the URL to
  \<open>visited_urls\<close>.
\<close>

theorem not_modified_is_visited_counterexample:
  "fetch_fails_spec (http_get example_env (Suc (length (trace cached_crawl))) ''http://a.com/cached'')
   \<and> ''http://a.com/cached'' |\<notin>| visited_urls (self cached_crawl)
   \<and> ''http://a.com/cached'' |\<in>| visited_urls (self (scrape_iter example_env cached_crawl))"
  by code_simp

section \<open>Links after content extraction\<close>

lemma hrefs_decompose:
  "hrefs_in (decompose_in k) = (case k of Tag n cs h ks \<Rightarrow> own_href k @ hrefs_kept ks | NavigableString c s \<Rightarrow> [])"
  "find_all_a_href (decompose_all ks) = hrefs_kept ks"
proof (induction k and ks rule: decompose_in_decompose_all.induct)
  case (1 c s)
  show ?case by simp
next
  case (2 n cs h ks)
  then show ?case by simp
next
  case 3
  show ?case by simp
next
  case (4 k ks)
  then show ?case by (cases k) auto
qed

lemma hrefs_update_first:
  "find_in P k \<noteq> None \<Longrightarrow> hrefs_in (update_in P decompose_in k) = pruned_in P k"
  "find_all_a_href (update_first P decompose_in sp) = hrefs_pruned P sp"
proof (induction P "decompose_in" k and P "decompose_in" sp rule: update_in_update_first.induct)
  case (1 P c s)
  then show ?case by simp
next
  case (2 P n cs h ks)
  then show ?case by (simp add: hrefs_decompose)
next
  case (3 P)
  show ?case by simp
next
  case (4 P k ks)
  then show ?case by (cases "find_in P k") simp_all
qed
text \<open>
  C10. \<open>extract_content\<close> changes the document it is given: in the main region it has
  selected (the first tag matching the selector \<open>P\<close>) every script, style, nav, header
  and footer element is taken out. \<open>scrape\<close> passes that same, changed document to
  \<open>extract_links\<close>, so the links it considers are \<open>hrefs_pruned P sp\<close>: links inside
  the removed elements of the main region are not seen, and such elements outside the
  region keep theirs.
\<close>

theorem extract_content_prunes_links:
  assumes "find_main sp = Some (P, m)"
  shows "\<exists>doc. extract_content E sp u = (update_first P decompose_in sp, Inr doc)
       \<and> handle_html E c u sp =
           enqueue_links E (add_document doc c) u (update_first P decompose_in sp)
       \<and> find_all_a_href (update_first P decompose_in sp) = hrefs_pruned P sp"
proof -
  obtain doc where ec: "extract_content E sp u = (update_first P decompose_in sp, Inr doc)"
    using assms by (simp add: extract_content_def Let_def)
  have hh: "handle_html E c u sp =
      enqueue_links E (add_document doc c) u (update_first P decompose_in sp)"
    by (simp add: handle_html_def ec)
  from ec hh hrefs_update_first(2)[of P sp] show ?thesis by blast
qed

lemma example_find_main: "find_main example_page = Some (is_named ''main'', example_main)"
  by (simp add: find_main_def example_page_def example_main_def)

theorem extract_content_prunes_links_witness:
  "find_main example_page = Some (is_named ''main'', example_main)
   \<and> (\<exists>doc. extract_content example_env example_page ''http://a.com/docs'' =
          (update_first (is_named ''main'') decompose_in example_page, Inr doc)
       \<and> handle_html example_env example_crawl ''http://a.com/docs'' example_page =
           enqueue_links example_env (add_document doc example_crawl) ''http://a.com/docs''
             (update_first (is_named ''main'') decompose_in example_page)
       \<and> find_all_a_href (update_first (is_named ''main'') decompose_in example_page) =
           hrefs_pruned (is_named ''main'') example_page)
   \<and> find_all_a_href example_page =
        [''http://a.com/docs/hidden'', ''http://a.com/docs/intro'', ''http://other.com/x'',
         ''http://a.com/docs/legal'']
   \<and> hrefs_pruned (is_named ''main'') example_page =
        [''http://a.com/docs/intro'', ''http://other.com/x'', ''http://a.com/docs/legal'']"
proof -
  have a: "find_all_a_href example_page =
        [''http://a.com/docs/hidden'', ''http://a.com/docs/intro'', ''http://other.com/x'',
         ''http://a.com/docs/legal'']"
    by (simp add: example_page_def example_main_def)
  have b: "hrefs_pruned (is_named ''main'') example_page =
        [''http://a.com/docs/intro'', ''http://other.com/x'', ''http://a.com/docs/legal'']"
    by (simp add: example_page_def example_main_def removed_names_def)
  from example_find_main
    extract_content_prunes_links[OF example_find_main, of example_env "''http://a.com/docs''" example_crawl]
    a b
  show ?thesis by (intro conjI)
qed

section \<open>The politeness delay\<close>


lemma enqueue_links_trace:
  assumes "enqueue_links E c u sp = (c', r)"
  shows "trace c' = trace c"
proof -
  obtain s3 r3 where el: "extract_links E (self c) sp u = (s3, r3)"
    by (cases "extract_links E (self c) sp u")
  have "enqueue_links E c u sp =
      (case r3 of Inl e \<Rightarrow> (c\<lparr>self := s3\<rparr>, Some e)
       | Inr new_links \<Rightarrow> (c\<lparr>self := s3, urls_to_visit := urls_to_visit c @ new_links\<rparr>, None))"
    by (simp add: enqueue_links_def el)
  with assms show ?thesis by (cases r3) auto
qed

lemma handle_html_trace:
  assumes "handle_html E c u sp = (c', r)"
  shows "trace c' = trace c"
proof (cases "extract_content E sp u")
  case (Pair sp' res)
  show ?thesis
  proof (cases res)
    case (Inl e)
    with Pair assms show ?thesis by (simp add: handle_html_def)
  next
    case (Inr doc)
    with Pair assms have "enqueue_links E (add_document doc c) u sp' = (c', r)"
      by (simp add: handle_html_def)
    from enqueue_links_trace[OF this] show ?thesis
      by (simp add: add_document_frame)
  qed
qed

lemma extract_pdf_content_logged:
  "extract_pdf_content E b u = (doc, logged) \<Longrightarrow> logged = [] \<or> (\<exists>e. logged = [WarnPdf u e])"
  by (cases "pdf_reader E b") (auto simp: extract_pdf_content_def Let_def)

lemma try_body_trace:
  assumes "try_body E c u = (c', r)"
  shows "(r \<noteq> None \<and> trace c' = trace c @ [HttpGet u]) \<or>
     (r = None \<and> (\<exists>logged. trace c' = trace c @ [HttpGet u] @ logged @ [Sleep politeness_delay]
        \<and> (logged = [] \<or> (\<exists>e. logged = [WarnPdf u e]))))"
proof (cases "fetch E (length (trace c)) u")
  case (Inl e)
  with assms have "c' = c\<lparr>trace := trace c @ [HttpGet u]\<rparr>" "r = Some e"
    by (simp_all add: try_body_def Let_def)
  then show ?thesis by simp
next
  case (Inr resp)
  define c1 where "c1 = (c\<lparr>trace := trace c @ [HttpGet u]\<rparr>)
      \<lparr>self := (self c)\<lparr>visited_urls := finsert u (visited_urls (self c))\<rparr>\<rparr>"
  have c1: "trace c1 = trace c @ [HttpGet u]"
    by (simp add: c1_def)
  show ?thesis
  proof (cases "endswith u ''.pdf'' \<or> contains ''application/pdf'' (lower (content_type resp))")
    case True
    obtain doc logged where ep: "extract_pdf_content E (content resp) u = (doc, logged)"
      by (cases "extract_pdf_content E (content resp) u")
    from assms Inr True ep
    have "c' = end_of_try (add_document doc (c1\<lparr>trace := trace c1 @ logged\<rparr>))" "r = None"
      by (simp_all add: try_body_def Let_def c1_def)
    then have "r = None" "trace c' = trace c @ [HttpGet u] @ logged @ [Sleep politeness_delay]"
      by (simp_all add: end_of_try_def add_document_frame c1)
    with extract_pdf_content_logged[OF ep] show ?thesis by blast
  next
    case False
    show ?thesis
    proof (cases "html_parser E (content resp)")
      case (Inl e)
      with assms \<open>fetch E (length (trace c)) u = Inr resp\<close> False
      have "c' = c1" "r = Some e"
        by (simp_all add: try_body_def Let_def c1_def)
      then show ?thesis by (simp add: c1)
    next
      case sp: (Inr sp)
      obtain c2 r2 where hh: "handle_html E c1 u sp = (c2, r2)"
        by (cases "handle_html E c1 u sp")
      have tr: "trace c2 = trace c @ [HttpGet u]"
        using handle_html_trace[OF hh] by (simp add: c1)
      from assms Inr False sp hh
      have eq: "(c', r) = (case r2 of Some e \<Rightarrow> (c2, Some e) | None \<Rightarrow> (end_of_try c2, None))"
        by (simp add: try_body_def Let_def c1_def)
      show ?thesis
      proof (cases r2)
        case None
        with eq have "c' = end_of_try c2" "r = None" by simp_all
        then have "r = None" "trace c' = trace c @ [HttpGet u] @ [] @ [Sleep politeness_delay]"
          by (simp_all add: end_of_try_def tr)
        then show ?thesis by blast
      next
        case (Some e)
        with eq have "c' = c2" "r = Some e" by simp_all
        then show ?thesis by (simp add: tr)
      qed
    qed
  qed
qed




section \<open>Passes of the loop\<close>

lemma scrape_iter_max_pages: "max_pages (self (scrape_iter E c)) = max_pages (self c)"
proof (cases "urls_to_visit c")
  case Nil
  then show ?thesis by (simp add: scrape_iter_def)
next
  case (Cons u rest)
  show ?thesis
  proof (cases "u |\<in>| visited_urls (self c)")
    case True
    from scrape_iter_skip[OF Cons True] show ?thesis by (simp add: dequeue_frame)
  next
    case False
    obtain c2 r where tb: "try_body E (dequeue c u rest) u = (c2, r)"
      by (cases "try_body E (dequeue c u rest) u")
    from try_body_frame[OF tb] have "max_pages (self c2) = max_pages (self c)"
      by (simp add: dequeue_frame)
    with scrape_iter_try[OF Cons False tb] show ?thesis by (cases r) simp_all
  qed
qed

lemma scrape_loop_max_pages: "max_pages (self (scrape_loop E c)) = max_pages (self c)"
proof (induction E c rule: scrape_loop.induct)
  case (1 E c)
  show ?case
  proof (cases "loop_cond c")
    case True
    with 1 have "max_pages (self (scrape_loop E (scrape_iter E c))) = max_pages (self (scrape_iter E c))"
      by simp
    with True show ?thesis by (subst scrape_loop.simps) (simp add: scrape_iter_max_pages)
  next
    case False
    then show ?thesis by (subst scrape_loop.simps) simp
  qed
qed

lemma scrape_loop_exit: "\<not> loop_cond (scrape_loop E c)"
proof (induction E c rule: scrape_loop.induct)
  case (1 E c)
  show ?case
  proof (cases "loop_cond c")
    case True
    with 1 have "\<not> loop_cond (scrape_loop E (scrape_iter E c))" by simp
    with True show ?thesis by (subst scrape_loop.simps) simp
  next
    case False
    then show ?thesis by (subst scrape_loop.simps) simp
  qed
qed

lemma scrape_fuel_enough: "\<exists>k. scrape_fuel k E c = Some (scrape_loop E c)"
proof (induction E c rule: scrape_loop.induct)
  case (1 E c)
  show ?case
  proof (cases "loop_cond c")
    case True
    with 1 obtain k where k: "scrape_fuel k E (scrape_iter E c) = Some (scrape_loop E (scrape_iter E c))"
      by blast
    have "scrape_loop E c = scrape_loop E (scrape_iter E c)"
      using True by (subst scrape_loop.simps) simp
    with k True have "scrape_fuel (Suc k) E c = Some (scrape_loop E c)" by simp
    then show ?thesis by blast
  next
    case False
    then have "scrape_loop E c = c" by (subst scrape_loop.simps) simp
    with False have "scrape_fuel 0 E c = Some (scrape_loop E c)" by simp
    then show ?thesis by blast
  qed
qed

section \<open>The frontier\<close>

lemma is_valid_url_True:
  assumes "is_valid_url E s a = Inr True"
  shows "scope_ok E s a" and "a |\<notin>| queued_urls s" and "a |\<notin>| visited_urls s"
proof -
  obtain p where p: "urlparse E a = Inr p"
    using assms by (cases "urlparse E a") (simp_all add: is_valid_url_def)
  from assms p have c: "netloc p = domain s \<and> startswith (rstrip_slash (path p)) (base_path s)
      \<and> \<not> (a |\<in>| visited_urls s \<or> a |\<in>| queued_urls s)
      \<and> \<not> endswith_any a excluded_extensions"
    by (simp add: is_valid_url_def split: if_splits)
  from c p show "scope_ok E s a" by (simp add: scope_ok_def)
  from c show "a |\<notin>| queued_urls s" by simp
  from c show "a |\<notin>| visited_urls s" by simp
qed

lemma scope_ok_frame:
  "domain s' = domain s \<Longrightarrow> base_path s' = base_path s \<Longrightarrow> scope_ok E s' a = scope_ok E s a"
  by (cases "urlparse E a") (simp_all add: scope_ok_def)

lemma links_new_Nil: "links_new E s s' []"
  by (simp add: links_new_def)

lemma extract_links_loop_spec:
  assumes "extract_links_loop E s cur hs links = (s', r)"
  shows "fset (queued_urls s) \<subseteq> fset (queued_urls s')
       \<and> (\<forall>links'. r = Inr links' \<longrightarrow> (\<exists>new. links' = links @ new \<and> links_new E s s' new))"
  using assms
proof (induction hs arbitrary: s links)
  case Nil
  then have "s' = s" "r = Inr links" by simp_all
  then show ?case using links_new_Nil[of E s s] by simp
next
  case (Cons h hs)
  show ?case
  proof (cases "urljoin E cur h")
    case (Inl e)
    with Cons.prems have "s' = s" "r = Inl e" by simp_all
    then show ?thesis by simp
  next
    case j: (Inr j)
    show ?thesis
    proof (cases "normalize_url E j")
      case (Inl e)
      with Cons.prems j have "s' = s" "r = Inl e" by simp_all
      then show ?thesis by simp
    next
      case a: (Inr a)
      show ?thesis
      proof (cases "is_valid_url E s a")
        case (Inl e)
        with Cons.prems j a have "s' = s" "r = Inl e" by simp_all
        then show ?thesis by simp
      next
        case ok: (Inr ok)
        show ?thesis
        proof (cases ok)
          case False
          with Cons.prems j a ok have "extract_links_loop E s cur hs links = (s', r)" by simp
          from Cons.IH[OF this] show ?thesis .
        next
          case True
          define s1 where "s1 = s\<lparr>queued_urls := finsert a (queued_urls s)\<rparr>"
          have q1: "fset (queued_urls s1) = insert a (fset (queued_urls s))"
            by (simp add: s1_def)
          have fr: "domain s1 = domain s" "base_path s1 = base_path s"
            by (simp_all add: s1_def)
          from Cons.prems j a ok True
          have "extract_links_loop E s1 cur hs (links @ [a]) = (s', r)" by (simp add: s1_def)
          from Cons.IH[OF this]
          have sub: "fset (queued_urls s1) \<subseteq> fset (queued_urls s')"
            and ih: "\<forall>links'. r = Inr links' \<longrightarrow>
                 (\<exists>new. links' = (links @ [a]) @ new \<and> links_new E s1 s' new)"
            by simp_all
          from ok True have v: "is_valid_url E s a = Inr True" by simp
          have "\<forall>links'. r = Inr links' \<longrightarrow> (\<exists>new. links' = links @ new \<and> links_new E s s' new)"
          proof (intro allI impI)
            fix links' assume "r = Inr links'"
            with ih obtain new1 where l: "links' = (links @ [a]) @ new1"
              and n1: "links_new E s1 s' new1" by blast
            from n1 have d: "distinct new1" and dj: "set new1 \<inter> fset (queued_urls s1) = {}"
              and ss: "set new1 \<subseteq> fset (queued_urls s')"
              and sc: "\<forall>x\<in>set new1. scope_ok E s1 x"
              by (simp_all add: links_new_def)
            from dj q1 have an: "a \<notin> set new1" and dj0: "set new1 \<inter> fset (queued_urls s) = {}"
              by auto
            from sub q1 have ain: "a \<in> fset (queued_urls s')" by auto
            from sc have sc0: "\<forall>x\<in>set new1. scope_ok E s x"
              by (simp add: scope_ok_frame[OF fr])
            have "links_new E s s' (a # new1)"
              unfolding links_new_def
              using d an dj0 ss ain sc0 is_valid_url_True(1,2)[OF v] by auto
            moreover from l have "links' = links @ (a # new1)" by simp
            ultimately show "\<exists>new. links' = links @ new \<and> links_new E s s' new" by blast
          qed
          moreover from sub q1 have "fset (queued_urls s) \<subseteq> fset (queued_urls s')" by auto
          ultimately show ?thesis by simp
        qed
      qed
    qed
  qed
qed

lemma enqueue_links_spec:
  assumes "enqueue_links E c u sp = (c', r)"
  shows "fset (queued_urls (self c)) \<subseteq> fset (queued_urls (self c'))
       \<and> (\<exists>new. urls_to_visit c' = urls_to_visit c @ new \<and> links_new E (self c) (self c') new)"
proof -
  obtain s3 r3 where el: "extract_links E (self c) sp u = (s3, r3)"
    by (cases "extract_links E (self c) sp u")
  then have ell: "extract_links_loop E (self c) u (find_all_a_href sp) [] = (s3, r3)"
    by (simp add: extract_links_def)
  from extract_links_loop_spec[OF ell]
  have sub: "fset (queued_urls (self c)) \<subseteq> fset (queued_urls s3)"
    and nw: "\<forall>links'. r3 = Inr links' \<longrightarrow> (\<exists>new. links' = [] @ new \<and> links_new E (self c) s3 new)"
    by simp_all
  have eq: "enqueue_links E c u sp =
      (case r3 of Inl e \<Rightarrow> (c\<lparr>self := s3\<rparr>, Some e)
       | Inr new_links \<Rightarrow> (c\<lparr>self := s3, urls_to_visit := urls_to_visit c @ new_links\<rparr>, None))"
    by (simp add: enqueue_links_def el)
  show ?thesis
  proof (cases r3)
    case (Inl e)
    with eq assms have "c' = c\<lparr>self := s3\<rparr>" by simp
    then have a: "self c' = s3" "urls_to_visit c' = urls_to_visit c @ []" by simp_all
    show ?thesis
      using sub links_new_Nil[of E "self c" s3]
      by (intro conjI exI[of _ "[]"]) (simp_all add: a)
  next
    case (Inr new_links)
    with eq assms have "c' = c\<lparr>self := s3, urls_to_visit := urls_to_visit c @ new_links\<rparr>" by simp
    then have a: "self c' = s3" "urls_to_visit c' = urls_to_visit c @ new_links" by simp_all
    from nw Inr have "links_new E (self c) s3 new_links" by simp
    with sub show ?thesis
      by (intro conjI exI[of _ new_links]) (simp_all add: a)
  qed
qed

lemma add_document_scope:
  "domain (self (add_document d c)) = domain (self c)"
  "base_path (self (add_document d c)) = base_path (self c)"
  by (simp_all add: add_document_def)

lemma links_new_frame:
  "queued_urls s0 = queued_urls s \<Longrightarrow> domain s0 = domain s \<Longrightarrow> base_path s0 = base_path s \<Longrightarrow>
   links_new E s0 s' new = links_new E s s' new"
  using scope_ok_frame[of s0 s E] by (simp add: links_new_def)

lemma handle_html_spec:
  assumes "handle_html E c u sp = (c', r)"
  shows "fset (queued_urls (self c)) \<subseteq> fset (queued_urls (self c'))
       \<and> (\<exists>new. urls_to_visit c' = urls_to_visit c @ new \<and> links_new E (self c) (self c') new)"
proof (cases "extract_content E sp u")
  case (Pair sp' res)
  show ?thesis
  proof (cases res)
    case (Inl e)
    with Pair assms have "c' = c" by (simp add: handle_html_def)
    then show ?thesis
      using links_new_Nil[of E "self c" "self c"]
      by (intro conjI exI[of _ "[]"]) simp_all
  next
    case (Inr doc)
    with Pair assms have "enqueue_links E (add_document doc c) u sp' = (c', r)"
      by (simp add: handle_html_def)
    from enqueue_links_spec[OF this] show ?thesis
      by (simp add: add_document_frame
            links_new_frame[OF add_document_frame(4) add_document_scope])
  qed
qed

lemma try_body_fetched:
  assumes "try_body E c u = (c', r)"
  shows "fetched c' = fetched c @ [u]"
proof -
  from try_body_trace[OF assms] show ?thesis
  proof
    assume "r \<noteq> None \<and> trace c' = trace c @ [HttpGet u]"
    then show ?thesis by (simp add: fetched_def)
  next
    assume "r = None \<and> (\<exists>logged. trace c' = trace c @ [HttpGet u] @ logged @ [Sleep politeness_delay]
        \<and> (logged = [] \<or> (\<exists>e. logged = [WarnPdf u e])))"
    then obtain logged where t: "trace c' = trace c @ [HttpGet u] @ logged @ [Sleep politeness_delay]"
      and l: "logged = [] \<or> (\<exists>e. logged = [WarnPdf u e])" by blast
    from l show ?thesis
    proof
      assume "logged = []"
      with t show ?thesis by (simp add: fetched_def)
    next
      assume "\<exists>e. logged = [WarnPdf u e]"
      then obtain e where "logged = [WarnPdf u e]" ..
      with t show ?thesis by (simp add: fetched_def)
    qed
  qed
qed

lemma try_body_spec:
  assumes "try_body E c u = (c', r)"
  shows "fset (queued_urls (self c)) \<subseteq> fset (queued_urls (self c'))
       \<and> (\<exists>new. urls_to_visit c' = urls_to_visit c @ new \<and> links_new E (self c) (self c') new)"
proof (cases "fetch E (length (trace c)) u")
  case (Inl e)
  with assms have "c' = c\<lparr>trace := trace c @ [HttpGet u]\<rparr>"
    by (simp add: try_body_def Let_def)
  then have a: "urls_to_visit c' = urls_to_visit c @ []" "self c' = self c" by simp_all
  show ?thesis
    using links_new_Nil[of E "self c" "self c"]
    by (intro conjI exI[of _ "[]"]) (simp_all add: a)
next
  case (Inr resp)
  define c1 where "c1 = (c\<lparr>trace := trace c @ [HttpGet u]\<rparr>)
      \<lparr>self := (self c)\<lparr>visited_urls := finsert u (visited_urls (self c))\<rparr>\<rparr>"
  have c1: "queued_urls (self c1) = queued_urls (self c)" "urls_to_visit c1 = urls_to_visit c"
    "domain (self c1) = domain (self c)" "base_path (self c1) = base_path (self c)"
    by (simp_all add: c1_def)
  have base: "fset (queued_urls (self c)) \<subseteq> fset (queued_urls (self c1))
       \<and> (\<exists>new. urls_to_visit c1 = urls_to_visit c @ new \<and> links_new E (self c) (self c1) new)"
    using links_new_Nil[of E "self c" "self c1"]
    by (intro conjI exI[of _ "[]"]) (simp_all add: c1)
  show ?thesis
  proof (cases "endswith u ''.pdf'' \<or> contains ''application/pdf'' (lower (content_type resp))")
    case True
    obtain doc logged where ep: "extract_pdf_content E (content resp) u = (doc, logged)"
      by (cases "extract_pdf_content E (content resp) u")
    from assms Inr True ep
    have "c' = end_of_try (add_document doc (c1\<lparr>trace := trace c1 @ logged\<rparr>))"
      by (simp add: try_body_def Let_def c1_def)
    then have a: "queued_urls (self c') = queued_urls (self c)"
      "urls_to_visit c' = urls_to_visit c @ []"
      by (simp_all add: end_of_try_frame add_document_frame c1)
    show ?thesis
      using links_new_Nil[of E "self c" "self c'"]
      by (intro conjI exI[of _ "[]"]) (simp_all add: a)
  next
    case False
    show ?thesis
    proof (cases "html_parser E (content resp)")
      case (Inl e)
      with assms \<open>fetch E (length (trace c)) u = Inr resp\<close> False have "c' = c1"
        by (simp add: try_body_def Let_def c1_def)
      with base show ?thesis by simp
    next
      case sp: (Inr sp)
      obtain c2 r2 where hh: "handle_html E c1 u sp = (c2, r2)"
        by (cases "handle_html E c1 u sp")
      from handle_html_spec[OF hh]
      have h2: "fset (queued_urls (self c)) \<subseteq> fset (queued_urls (self c2))
          \<and> (\<exists>new. urls_to_visit c2 = urls_to_visit c @ new \<and> links_new E (self c) (self c2) new)"
        by (simp add: c1 links_new_frame[OF c1(1) c1(3) c1(4)])
      from assms Inr False sp hh
      have "(c', r) = (case r2 of Some e \<Rightarrow> (c2, Some e) | None \<Rightarrow> (end_of_try c2, None))"
        by (simp add: try_body_def Let_def c1_def)
      then have "self c' = self c2" "urls_to_visit c' = urls_to_visit c2"
        by (cases r2; simp add: end_of_try_frame)+
      with h2 show ?thesis by simp
    qed
  qed
qed

lemma fetched_dequeue: "fetched (dequeue c u rest) = fetched c"
  by (simp add: fetched_def dequeue_def)

lemma fetched_warn: "fetched (c\<lparr>trace := trace c @ [WarnScraping u e]\<rparr>) = fetched c"
  by (simp add: fetched_def)

lemma scrape_iter_cases:
  assumes "urls_to_visit c = u # rest"
  shows "(u |\<in>| visited_urls (self c) \<and> scrape_iter E c = dequeue c u rest)
       \<or> (u |\<notin>| visited_urls (self c) \<and> (\<exists>c2 r. try_body E (dequeue c u rest) u = (c2, r)
            \<and> self (scrape_iter E c) = self c2
            \<and> urls_to_visit (scrape_iter E c) = urls_to_visit c2
            \<and> fetched (scrape_iter E c) = fetched c2))"
proof (cases "u |\<in>| visited_urls (self c)")
  case True
  with scrape_iter_skip[OF assms True] show ?thesis by simp
next
  case False
  obtain c2 r where tb: "try_body E (dequeue c u rest) u = (c2, r)"
    by (cases "try_body E (dequeue c u rest) u")
  have "self (scrape_iter E c) = self c2 \<and> urls_to_visit (scrape_iter E c) = urls_to_visit c2
      \<and> fetched (scrape_iter E c) = fetched c2"
    using scrape_iter_try[OF assms False tb] by (cases r) (simp_all add: fetched_warn)
  with False tb show ?thesis by blast
qed

lemma scrape_iter_frontier:
  assumes inv: "frontier_inv c"
  shows "frontier_inv (scrape_iter E c)"
proof (cases "urls_to_visit c")
  case Nil
  then have "scrape_iter E c = c" by (simp add: scrape_iter_def)
  with inv show ?thesis by simp
next
  case (Cons u rest)
  from inv Cons have d: "distinct (u # rest)"
    and pq: "set (u # rest) \<subseteq> fset (queued_urls (self c))"
    and fq: "set (fetched c) \<subseteq> fset (queued_urls (self c))"
    and fp: "set (fetched c) \<inter> set (u # rest) = {}"
    and df: "distinct (fetched c)"
    and vf: "fset (visited_urls (self c)) \<subseteq> set (fetched c)"
    by (simp_all add: frontier_inv_def)
  from scrape_iter_cases[OF Cons, of E] show ?thesis
  proof
    assume "u |\<in>| visited_urls (self c) \<and> scrape_iter E c = dequeue c u rest"
    then have eq: "scrape_iter E c = dequeue c u rest" by simp
    show ?thesis
      unfolding eq frontier_inv_def fetched_dequeue dequeue_frame
      using d pq fq fp df vf by auto
  next
    assume "u |\<notin>| visited_urls (self c) \<and> (\<exists>c2 r. try_body E (dequeue c u rest) u = (c2, r)
            \<and> self (scrape_iter E c) = self c2
            \<and> urls_to_visit (scrape_iter E c) = urls_to_visit c2
            \<and> fetched (scrape_iter E c) = fetched c2)"
    then obtain c2 r where tb: "try_body E (dequeue c u rest) u = (c2, r)"
      and s: "self (scrape_iter E c) = self c2"
      and p: "urls_to_visit (scrape_iter E c) = urls_to_visit c2"
      and f: "fetched (scrape_iter E c) = fetched c2" by blast
    from try_body_fetched[OF tb] have f2: "fetched c2 = fetched c @ [u]"
      by (simp add: fetched_dequeue)
    from try_body_spec[OF tb] obtain new
      where q2: "fset (queued_urls (self c)) \<subseteq> fset (queued_urls (self c2))"
        and p2: "urls_to_visit c2 = rest @ new"
        and ln: "links_new E (self c) (self c2) new"
      by (auto simp: dequeue_frame)
    from ln have dn: "distinct new" and nq: "set new \<inter> fset (queued_urls (self c)) = {}"
      and nq2: "set new \<subseteq> fset (queued_urls (self c2))"
      by (simp_all add: links_new_def)
    from try_body_frame[OF tb]
    have v2: "fset (visited_urls (self c2)) \<subseteq> insert u (fset (visited_urls (self c)))"
      by (auto simp: dequeue_frame)
    have "distinct (rest @ new)" using d dn pq nq by auto
    moreover have "set (rest @ new) \<subseteq> fset (queued_urls (self c2))" using pq q2 nq2 by auto
    moreover have "set (fetched c @ [u]) \<subseteq> fset (queued_urls (self c2))" using fq pq q2 by auto
    moreover have "set (fetched c @ [u]) \<inter> set (rest @ new) = {}" using fp fq pq nq d by auto
    moreover have "distinct (fetched c @ [u])" using df fp by auto
    moreover have "fset (visited_urls (self c2)) \<subseteq> set (fetched c @ [u])" using v2 vf by auto
    ultimately show ?thesis
      unfolding frontier_inv_def s p f f2 p2 by (intro conjI)
  qed
qed

lemma scrape_iter_budget:
  assumes "loop_cond c"
  shows "int (fcard (visited_urls (self (scrape_iter E c)))) \<le> max_pages (self c)"
proof (cases "urls_to_visit c")
  case Nil
  with assms show ?thesis by (simp add: loop_cond_def)
next
  case (Cons u rest)
  from assms have lt: "int (fcard (visited_urls (self c))) < max_pages (self c)"
    by (simp add: loop_cond_def)
  from scrape_iter_cases[OF Cons, of E] show ?thesis
  proof
    assume "u |\<in>| visited_urls (self c) \<and> scrape_iter E c = dequeue c u rest"
    with lt show ?thesis by (simp add: dequeue_frame)
  next
    assume "u |\<notin>| visited_urls (self c) \<and> (\<exists>c2 r. try_body E (dequeue c u rest) u = (c2, r)
            \<and> self (scrape_iter E c) = self c2
            \<and> urls_to_visit (scrape_iter E c) = urls_to_visit c2
            \<and> fetched (scrape_iter E c) = fetched c2)"
    then obtain c2 r where tb: "try_body E (dequeue c u rest) u = (c2, r)"
      and s: "self (scrape_iter E c) = self c2" by blast
    from try_body_frame[OF tb]
    have "visited_urls (self c2) = visited_urls (self c)
        \<or> visited_urls (self c2) = finsert u (visited_urls (self c))"
      by (auto simp: dequeue_frame)
    then have "fcard (visited_urls (self c2)) \<le> Suc (fcard (visited_urls (self c)))"
      by (auto simp: fcard_finsert_if)
    with lt s show ?thesis by simp
  qed
qed

lemma seed_crawl_frontier:
  assumes "init E u0 n = Inr s" and "seed_crawl E s = Inr c"
  shows "frontier_inv c \<and> max_pages (self c) = n \<and> visited_urls (self c) = {||}"
proof -
  from assms(1) have s: "max_pages s = n" "visited_urls s = {||}"
    by (cases "urlparse E u0"; auto simp: init_def)+
  from assms(2) obtain v where c: "self c = s\<lparr>queued_urls := finsert v (queued_urls s)\<rparr>"
      "urls_to_visit c = [v]" "trace c = []"
    by (cases "normalize_url E (base_url s)") (auto simp: seed_crawl_def)
  show ?thesis by (simp add: c s frontier_inv_def fetched_def)
qed

lemma crawl_state_inv:
  assumes "crawl_state E u0 n c"
  shows "frontier_inv c \<and> max_pages (self c) = n
       \<and> int (fcard (visited_urls (self c))) \<le> max 0 n"
  using assms
proof (induction rule: crawl_state.induct)
  case (seeded s c)
  from seed_crawl_frontier[OF seeded] show ?case by (simp add: fcard_fempty)
next
  case (iterated c)
  from iterated.IH have inv: "frontier_inv c" and mp: "max_pages (self c) = n" by simp_all
  from scrape_iter_budget[OF iterated.hyps(2), of E] mp
  have "int (fcard (visited_urls (self (scrape_iter E c)))) \<le> max 0 n" by simp
  with scrape_iter_frontier[OF inv, of E] scrape_iter_max_pages[of E c] mp show ?case by simp
qed

lemma crawl_state_scrape_loop:
  "crawl_state E u0 n c \<Longrightarrow> crawl_state E u0 n (scrape_loop E c)"
proof (induction E c rule: scrape_loop.induct)
  case (1 E c)
  show ?case
  proof (cases "loop_cond c")
    case True
    with 1 have "crawl_state E u0 n (scrape_loop E (scrape_iter E c))"
      by (simp add: crawl_state.iterated)
    with True show ?thesis by (subst scrape_loop.simps) simp
  next
    case False
    with 1 show ?thesis by (subst scrape_loop.simps) simp
  qed
qed

text \<open>
  C1 (amended). In every crawl (an object fresh from \<open>__init__\<close>, then one call of
  \<open>scrape\<close>), at every head of the loop and at the exit of the loop: no URL has been
  requested more than once, every visited URL has been requested, and the size of
  \<open>visited_urls\<close> is at most \<open>max_pages\<close>, or at most 0 when \<open>max_pages\<close> is negative.
\<close>

theorem crawl_fetches_once_within_budget:
  assumes "crawl_state E u0 n c"
  shows "distinct (fetched c)
       \<and> fset (visited_urls (self c)) \<subseteq> set (fetched c)
       \<and> int (fcard (visited_urls (self c))) \<le> max 0 n
       \<and> distinct (fetched (scrape_loop E c))
       \<and> fset (visited_urls (self (scrape_loop E c))) \<subseteq> set (fetched (scrape_loop E c))
       \<and> int (fcard (visited_urls (self (scrape_loop E c)))) \<le> max 0 n"
proof -
  from crawl_state_inv[OF assms]
  have a: "distinct (fetched c) \<and> fset (visited_urls (self c)) \<subseteq> set (fetched c)
       \<and> int (fcard (visited_urls (self c))) \<le> max 0 n"
    by (simp add: frontier_inv_def)
  from crawl_state_inv[OF crawl_state_scrape_loop[OF assms]]
  have b: "distinct (fetched (scrape_loop E c))
       \<and> fset (visited_urls (self (scrape_loop E c))) \<subseteq> set (fetched (scrape_loop E c))
       \<and> int (fcard (visited_urls (self (scrape_loop E c)))) \<le> max 0 n"
    by (simp add: frontier_inv_def)
  from a b show ?thesis by simp
qed

lemma example_seed: "seed_crawl example_env example_scraper = Inr example_crawl"
  by code_simp

lemma example_crawl_state: "crawl_state example_env ''http://a.com/docs'' 5 example_crawl"
  by (rule crawl_state.seeded[OF example_init example_seed])

theorem crawl_fetches_once_within_budget_witness:
  "crawl_state example_env ''http://a.com/docs'' 5 example_crawl
   \<and> fetched (scrape_loop example_env example_crawl) =
       [''http://a.com/docs'', ''http://a.com/docs/intro'', ''http://a.com/docs/legal'']
   \<and> visited_urls (self (scrape_loop example_env example_crawl)) = {|''http://a.com/docs''|}
   \<and> distinct (fetched (scrape_loop example_env example_crawl))
   \<and> int (fcard (visited_urls (self (scrape_loop example_env example_crawl)))) \<le> max 0 5"
proof -
  have a: "fetched (scrape_loop example_env example_crawl) =
       [''http://a.com/docs'', ''http://a.com/docs/intro'', ''http://a.com/docs/legal'']"
    by code_simp
  have b: "visited_urls (self (scrape_loop example_env example_crawl)) = {|''http://a.com/docs''|}"
    by code_simp
  from crawl_fetches_once_within_budget[OF example_crawl_state]
  have c: "distinct (fetched (scrape_loop example_env example_crawl))"
    and d: "int (fcard (visited_urls (self (scrape_loop example_env example_crawl)))) \<le> max 0 5"
    by simp_all
  from example_crawl_state a b c d show ?thesis by (intro conjI)
qed

text \<open>
  The claim as the specification states it (the size of visited never exceeds
  \<open>maxPages\<close>) fails for a negative budget: with \<open>max_pages = -1\<close> the loop exits at
  once with nothing visited, and 0 exceeds \<open>-1\<close>.
\<close>

theorem negative_budget_counterexample:
  "crawl_state example_env ''http://a.com/docs'' (- 1) negative_budget_crawl
   \<and> scrape_loop example_env negative_budget_crawl = negative_budget_crawl
   \<and> \<not> int (fcard (visited_urls (self negative_budget_crawl))) \<le> - 1"
proof -
  have i: "init example_env ''http://a.com/docs'' (- 1) = Inr (example_scraper\<lparr>max_pages := - 1\<rparr>)"
    by code_simp
  have s: "seed_crawl example_env (example_scraper\<lparr>max_pages := - 1\<rparr>) = Inr negative_budget_crawl"
    by code_simp
  have a: "crawl_state example_env ''http://a.com/docs'' (- 1) negative_budget_crawl"
    by (rule crawl_state.seeded[OF i s])
  have b: "scrape_loop example_env negative_budget_crawl = negative_budget_crawl"
    by code_simp
  have c: "\<not> int (fcard (visited_urls (self negative_budget_crawl))) \<le> - 1"
    by (simp add: negative_budget_crawl_def example_scraper_def)
  from a b c show ?thesis by (intro conjI)
qed

section \<open>Scope of the queue\<close>

text \<open>
  C3 (amended). Every URL that a pass of the loop appends to the pending queue (every
  URL that enters the queue by link discovery) satisfies, at the moment of its
  enqueue: its netloc equals the job's domain, its path with its trailing slashes
  stripped starts with the job's base path, and the URL string does not end with an
  excluded extension. The initial seed is enqueued without any check.
\<close>

theorem discovered_links_in_scope:
  "\<exists>new. urls_to_visit (scrape_iter E c) = tl (urls_to_visit c) @ new
        \<and> list_all (scope_ok E (self c)) new"
proof (cases "urls_to_visit c")
  case Nil
  then have "scrape_iter E c = c" by (simp add: scrape_iter_def)
  with Nil have "urls_to_visit (scrape_iter E c) = tl (urls_to_visit c) @ []
        \<and> list_all (scope_ok E (self c)) []" by simp
  then show ?thesis by (rule exI)
next
  case (Cons u rest)
  from scrape_iter_cases[OF Cons, of E] show ?thesis
  proof
    assume "u |\<in>| visited_urls (self c) \<and> scrape_iter E c = dequeue c u rest"
    with Cons have "urls_to_visit (scrape_iter E c) = tl (urls_to_visit c) @ []
        \<and> list_all (scope_ok E (self c)) []" by (simp add: dequeue_frame)
    then show ?thesis by (rule exI)
  next
    assume "u |\<notin>| visited_urls (self c) \<and> (\<exists>c2 r. try_body E (dequeue c u rest) u = (c2, r)
            \<and> self (scrape_iter E c) = self c2
            \<and> urls_to_visit (scrape_iter E c) = urls_to_visit c2
            \<and> fetched (scrape_iter E c) = fetched c2)"
    then obtain c2 r where tb: "try_body E (dequeue c u rest) u = (c2, r)"
      and p: "urls_to_visit (scrape_iter E c) = urls_to_visit c2" by blast
    from try_body_spec[OF tb] obtain new
      where p2: "urls_to_visit c2 = rest @ new"
        and ln: "links_new E (self c) (self c2) new"
      by (auto simp: dequeue_frame)
    from ln have "list_all (scope_ok E (self c)) new"
      by (simp add: links_new_def list_all_iff)
    with p p2 Cons have "urls_to_visit (scrape_iter E c) = tl (urls_to_visit c) @ new
        \<and> list_all (scope_ok E (self c)) new" by simp
    then show ?thesis by (rule exI)
  qed
qed

theorem discovered_links_in_scope_witness:
  "urls_to_visit (scrape_iter example_env example_crawl) =
     tl (urls_to_visit example_crawl) @ [''http://a.com/docs/intro'', ''http://a.com/docs/legal'']
   \<and> list_all (scope_ok example_env (self example_crawl))
        [''http://a.com/docs/intro'', ''http://a.com/docs/legal'']
   \<and> (\<exists>new. urls_to_visit (scrape_iter example_env example_crawl) =
          tl (urls_to_visit example_crawl) @ new
        \<and> list_all (scope_ok example_env (self example_crawl)) new)"
proof -
  have a: "urls_to_visit (scrape_iter example_env example_crawl) =
     tl (urls_to_visit example_crawl) @ [''http://a.com/docs/intro'', ''http://a.com/docs/legal'']"
    by code_simp
  have b: "list_all (scope_ok example_env (self example_crawl))
        [''http://a.com/docs/intro'', ''http://a.com/docs/legal'']"
    by code_simp
  from a b discovered_links_in_scope[of example_env example_crawl] show ?thesis
    by (intro conjI)
qed

text \<open>
  The claim as the specification states it (every URL ever added to the queue,
  including the initial seed, has no excluded extension) fails for the seed: the seed
  of \<open>DocumentationScraper("http://a.com/logo.png")\<close> is queued although it ends with
  \<open>.png\<close>.
\<close>

theorem seed_with_excluded_extension_counterexample:
  "init example_env ''http://a.com/logo.png'' 5 = Inr logo_scraper
   \<and> seed_crawl example_env logo_scraper = Inr logo_crawl
   \<and> urls_to_visit logo_crawl = [''http://a.com/logo.png'']
   \<and> endswith_any ''http://a.com/logo.png'' excluded_extensions
   \<and> \<not> scope_ok example_env logo_scraper ''http://a.com/logo.png''"
  by code_simp

section \<open>Termination of the crawl\<close>

lemma crawl_state_visited_queued:
  assumes "crawl_state E u0 n c"
  shows "fcard (visited_urls (self c)) \<le> fcard (queued_urls (self c))"
proof -
  from crawl_state_inv[OF assms]
  have "fset (visited_urls (self c)) \<subseteq> fset (queued_urls (self c))"
    by (auto simp: frontier_inv_def)
  then have "visited_urls (self c) |\<subseteq>| queued_urls (self c)"
    by (simp add: less_eq_fset.rep_eq)
  then show ?thesis by (rule fcard_mono)
qed

text \<open>
  C9. The crawl loop terminates, from every state and against every site, finite or
  not: some number of passes takes the loop to its exit, because each pass either
  adds a fetched URL to \<open>visited_urls\<close> (at most \<open>max_pages\<close> times) or shortens the
  queue, which only receives URLs never queued before. At the exit the queue is empty
  or the page budget is used up. In a crawl where \<open>max_pages\<close> exceeds the number of
  URLs that were ever queued (the seed and the pages in scope that can be reached),
  the loop ends with the frontier empty.
\<close>

theorem scrape_loop_terminates:
  "(\<exists>k. scrape_fuel k E c = Some (scrape_loop E c))
   \<and> (urls_to_visit (scrape_loop E c) = []
      \<or> max_pages (self c) \<le> int (fcard (visited_urls (self (scrape_loop E c)))))
   \<and> (crawl_state E u0 n c \<and> int (fcard (queued_urls (self (scrape_loop E c)))) < n
        \<longrightarrow> urls_to_visit (scrape_loop E c) = [])"
proof -
  have ex: "urls_to_visit (scrape_loop E c) = []
      \<or> max_pages (self c) \<le> int (fcard (visited_urls (self (scrape_loop E c))))"
    using scrape_loop_exit[of E c] by (auto simp: loop_cond_def scrape_loop_max_pages)
  have fr: "crawl_state E u0 n c \<and> int (fcard (queued_urls (self (scrape_loop E c)))) < n
        \<longrightarrow> urls_to_visit (scrape_loop E c) = []"
  proof
    assume a: "crawl_state E u0 n c \<and> int (fcard (queued_urls (self (scrape_loop E c)))) < n"
    then have cs: "crawl_state E u0 n (scrape_loop E c)" by (simp add: crawl_state_scrape_loop)
    from crawl_state_inv[OF cs] have mp: "max_pages (self (scrape_loop E c)) = n" by simp
    from crawl_state_visited_queued[OF cs] a
    have "int (fcard (visited_urls (self (scrape_loop E c)))) < n" by simp
    with mp scrape_loop_exit[of E c] show "urls_to_visit (scrape_loop E c) = []"
      by (simp add: loop_cond_def)
  qed
  from scrape_fuel_enough[of E c] ex fr show ?thesis by (intro conjI)
qed

theorem scrape_loop_terminates_witness:
  "crawl_state example_env ''http://a.com/docs'' 5 example_crawl
   \<and> int (fcard (queued_urls (self (scrape_loop example_env example_crawl)))) < 5
   \<and> scrape_fuel 3 example_env example_crawl = Some (scrape_loop example_env example_crawl)
   \<and> (\<exists>k. scrape_fuel k example_env example_crawl = Some (scrape_loop example_env example_crawl))
   \<and> urls_to_visit (scrape_loop example_env example_crawl) = []"
proof -
  have a: "scrape_fuel 3 example_env example_crawl = Some (scrape_loop example_env example_crawl)"
    by code_simp
  have b: "int (fcard (queued_urls (self (scrape_loop example_env example_crawl)))) < 5"
    by code_simp
  from scrape_loop_terminates[of example_env example_crawl "''http://a.com/docs''" 5]
    example_crawl_state b
  have c: "\<exists>k. scrape_fuel k example_env example_crawl = Some (scrape_loop example_env example_crawl)"
    and d: "urls_to_visit (scrape_loop example_env example_crawl) = []"
    by simp_all
  from example_crawl_state b a c d show ?thesis by (intro conjI)
qed

end
